theory Spec2Isabelle
  imports Complex_Main
begin

section \<open>Strings\<close>

text \<open>
  A Python \<^verbatim>\<open>str\<close> is modelled as a \<^typ>\<open>string\<close>: a list of characters, one
  \<^typ>\<open>char\<close> per code point, so that \<^verbatim>\<open>len\<close> is \<^const>\<open>length\<close>. The
  type \<^typ>\<open>char\<close> has 256 values; they are read as the code points 0 to 255, and the
  character classes below are Python's on that range.
\<close>

definition isspace :: "char \<Rightarrow> bool" where
  "isspace c =
     (let n = (of_char c :: nat)
      in (9 \<le> n \<and> n \<le> 13) \<or> (28 \<le> n \<and> n \<le> 32) \<or> n = 133 \<or> n = 160)"

definition isdigit :: "char \<Rightarrow> bool" where
  "isdigit c = (let n = (of_char c :: nat) in 48 \<le> n \<and> n \<le> 57)"

definition lower_char :: "char \<Rightarrow> char" where
  "lower_char c =
     (let n = (of_char c :: nat)
      in if (65 \<le> n \<and> n \<le> 90) \<or> (192 \<le> n \<and> n \<le> 222 \<and> n \<noteq> 215)
         then char_of (n + 32) else c)"

definition lower :: "string \<Rightarrow> string" where
  "lower s = map lower_char s"

text \<open>\<^verbatim>\<open>s.strip()\<close>: leading and trailing whitespace removed.\<close>

definition lstrip :: "string \<Rightarrow> string" where
  "lstrip s = dropWhile isspace s"

definition rstrip :: "string \<Rightarrow> string" where
  "rstrip s = rev (dropWhile isspace (rev s))"

definition strip :: "string \<Rightarrow> string" where
  "strip s = rstrip (lstrip s)"

text \<open>
  \<^verbatim>\<open>s.split()\<close>: the maximal runs of characters that are not whitespace, in order.
  The scan skips whitespace, takes a word up to the next whitespace, and goes on
  behind it.
\<close>

function split_ws :: "string \<Rightarrow> string list" where
  "split_ws s =
     (let s' = dropWhile isspace s
      in if s' = [] then []
         else takeWhile (\<lambda>c. \<not> isspace c) s' # split_ws (dropWhile (\<lambda>c. \<not> isspace c) s'))"
  by pat_completeness auto

lemma length_dropWhile_word:
  assumes "dropWhile isspace s \<noteq> []"
  shows "length (dropWhile (\<lambda>c. \<not> isspace c) (dropWhile isspace s)) < length s"
proof -
  obtain x xs where xs: "dropWhile isspace s = x # xs"
    using assms by (cases "dropWhile isspace s") auto
  then have "\<not> isspace x"
    using hd_dropWhile [of isspace s] by auto
  then have "dropWhile (\<lambda>c. \<not> isspace c) (x # xs) = dropWhile (\<lambda>c. \<not> isspace c) xs"
    by simp
  moreover have "length (dropWhile (\<lambda>c. \<not> isspace c) xs) \<le> length xs"
    by (rule length_dropWhile_le)
  moreover have "length (x # xs) \<le> length s"
    using length_dropWhile_le [of isspace s] xs by simp
  ultimately show ?thesis
    using xs by simp
qed

termination split_ws
  by (relation "measure length") (auto simp: length_dropWhile_word)

declare split_ws.simps [simp del]

text \<open>\<^verbatim>\<open>sep.join(parts)\<close>.\<close>

fun join :: "string \<Rightarrow> string list \<Rightarrow> string" where
  "join sep [] = []"
| "join sep [x] = x"
| "join sep (x # y # ys) = x @ sep @ join sep (y # ys)"

section \<open>Data model (models.py)\<close>

datatype Section =
  Section (level: int) (title: string) (text': string) (children: "Section list")

record submodule =
  sm_name :: string
  sm_description :: string
  sm_source_urls :: "string list"
  sm_confidence :: real

record module =
  name :: string
  description :: string
  submodules :: "submodule list"
  source_urls :: "string list"
  confidence :: real

section \<open>Document structurer (cleaner.py)\<close>

text \<open>
  \<^verbatim>\<open>build_sections\<close> mutates Section objects that are shared between the result
  list \<^verbatim>\<open>root\<close>, the \<^verbatim>\<open>stack\<close> of open sections and the
  \<^verbatim>\<open>children\<close> lists of their parents. The model keeps the objects in a store:
  an object is a node, its address is its index in the store, and
  \<^verbatim>\<open>root\<close>, \<^verbatim>\<open>stack\<close> and \<^verbatim>\<open>children\<close> hold addresses.
  A new object gets the next free address.
\<close>

record node =
  n_level :: int
  n_title :: string
  n_text :: string
  n_children :: "nat list"

record build_state =
  heap :: "node list"
  root :: "nat list"
  stack :: "nat list"

definition level_map :: "string \<Rightarrow> int option" where
  "level_map = map_of [(''h1'', 1), (''h2'', 2), (''h3'', 3), (''h4'', 4)]"

text \<open>
  \<^verbatim>\<open>while stack and stack[-1].level >= level: stack.pop()\<close>. The top of the stack
  is its last element.
\<close>

function pop_stack :: "node list \<Rightarrow> int \<Rightarrow> nat list \<Rightarrow> nat list" where
  "pop_stack h lvl st =
     (if st \<noteq> [] \<and> n_level (h ! last st) \<ge> lvl then pop_stack h lvl (butlast st) else st)"
  by pat_completeness auto

termination pop_stack
  by (relation "measure (\<lambda>(h, lvl, st). length st)") auto

declare pop_stack.simps [simp del]

text \<open>The body of the loop over the blocks, for one block \<^verbatim>\<open>(tag, text)\<close>.\<close>

definition build_step :: "build_state \<Rightarrow> string \<times> string \<Rightarrow> build_state" where
  "build_step s b =
     (let tag = fst b; txt = snd b; h = heap s; new = length h
      in case level_map tag of
           Some lvl \<Rightarrow>
             (let sec = \<lparr>n_level = lvl, n_title = txt, n_text = [], n_children = []\<rparr>;
                  st = pop_stack h lvl (stack s)
              in if st \<noteq> []
                 then \<lparr>heap = h[last st := (h ! last st)
                                  \<lparr>n_children := n_children (h ! last st) @ [new]\<rparr>] @ [sec],
                       root = root s,
                       stack = st @ [new]\<rparr>
                 else \<lparr>heap = h @ [sec], root = root s @ [new], stack = st @ [new]\<rparr>)
         | None \<Rightarrow>
             (if stack s \<noteq> []
              then (let top = last (stack s); old = n_text (h ! top)
                    in s\<lparr>heap := h[top := (h ! top)
                           \<lparr>n_text := (if old \<noteq> [] then old @ '' '' @ txt else txt)\<rparr>]\<rparr>)
              else s\<lparr>heap := h @ [\<lparr>n_level = 1, n_title = ''Overview'', n_text = txt,
                                     n_children = []\<rparr>],
                     root := root s @ [new]\<rparr>))"

definition build_loop :: "(string \<times> string) list \<Rightarrow> build_state" where
  "build_loop blocks = foldl build_step \<lparr>heap = [], root = [], stack = []\<rparr> blocks"

text \<open>
  The value of the object at an address, as a tree: what a reader of the returned list
  sees. A child is created after its parent and is an object of the store, so its address
  is larger than its parent's and below the size of the store (\<open>build_loop_wf\<close> below);
  the filter states this and removes no child of a store that \<open>build_loop\<close> built.
\<close>

function to_section :: "node list \<Rightarrow> nat \<Rightarrow> Section" where
  "to_section h a =
     Section (n_level (h ! a)) (n_title (h ! a)) (n_text (h ! a))
       (map (to_section h) (filter (\<lambda>c. a < c \<and> c < length h) (n_children (h ! a))))"
  by pat_completeness auto

termination to_section
  by (relation "measure (\<lambda>(h, a). length h - a)") auto

declare to_section.simps [simp del]

definition build_sections :: "(string \<times> string) list \<Rightarrow> Section list" where
  "build_sections blocks = (let s = build_loop blocks in map (to_section (heap s)) (root s))"

text \<open>
  The nesting invariant of a section tree: every child has a strictly greater level than
  its parent, at every depth.
\<close>

fun levels_increase :: "Section \<Rightarrow> bool" where
  "levels_increase (Section l t x cs) = (\<forall>c \<in> set cs. l < level c \<and> levels_increase c)"

text \<open>
  The same invariant on the store, with the shape of the addresses: the children of an
  object are objects of the store, created after it.
\<close>

definition wf_heap :: "node list \<Rightarrow> bool" where
  "wf_heap h = (\<forall>a < length h. \<forall>c \<in> set (n_children (h ! a)).
      a < c \<and> c < length h \<and> n_level (h ! a) < n_level (h ! c))"

definition wf_state :: "build_state \<Rightarrow> bool" where
  "wf_state s = (wf_heap (heap s) \<and> (\<forall>a \<in> set (stack s). a < length (heap s))
      \<and> (\<forall>a \<in> set (root s). a < length (heap s)))"

text \<open>The synthetic section made for a text block that no heading precedes.\<close>

definition overview :: "string \<Rightarrow> node" where
  "overview t = \<lparr>n_level = 1, n_title = ''Overview'', n_text = t, n_children = []\<rparr>"

text \<open>
  Where the title of a section comes from. A section is created in two places only: for a
  heading block, with the text of the block as its title, and for a text block met while
  the stack is empty, with the title "Overview". The stack is empty exactly as long as no
  heading block has been met, so a synthetic section stands for text that precedes every
  heading of the page.
\<close>

definition heading_texts :: "(string \<times> string) list \<Rightarrow> string list" where
  "heading_texts blocks = map snd (filter (\<lambda>b. level_map (fst b) \<noteq> None) blocks)"

definition leading_text :: "(string \<times> string) list \<Rightarrow> bool" where
  "leading_text blocks = (blocks \<noteq> [] \<and> level_map (fst (hd blocks)) = None)"

definition title_source :: "(string \<times> string) list \<Rightarrow> string \<Rightarrow> bool" where
  "title_source blocks t =
     (t \<in> set (heading_texts blocks) \<or> t = ''Overview'' \<and> leading_text blocks)"

definition titles_ok :: "(string \<times> string) list \<Rightarrow> build_state \<Rightarrow> bool" where
  "titles_ok blocks s =
     ((\<forall>n \<in> set (heap s). title_source blocks (n_title n)) \<and>
      (stack s = [] \<longrightarrow> heading_texts blocks = []))"

section \<open>Summaries (cleaner.py)\<close>

text \<open>
  \<^verbatim>\<open>re.split(r"(?<=[.!?])\s+", s)\<close>: the pieces of \<open>s\<close> between the separators. A
  separator is a maximal run of whitespace that stands right after one of the characters
  \<^verbatim>\<open>. ! ?\<close>. The scan carries the piece read so far; a separator at the end of the
  string leaves an empty last piece, as \<^verbatim>\<open>re.split\<close> does.
\<close>

definition sentence_end :: "char \<Rightarrow> bool" where
  "sentence_end c = (c = CHR ''.'' \<or> c = CHR ''!'' \<or> c = CHR ''?'')"

function split_sentences_from :: "string \<Rightarrow> string \<Rightarrow> string list" where
  "split_sentences_from cur [] = [cur]"
| "split_sentences_from cur (c # cs) =
     (if isspace c \<and> cur \<noteq> [] \<and> sentence_end (last cur)
      then cur # split_sentences_from [] (dropWhile isspace cs)
      else split_sentences_from (cur @ [c]) cs)"
  by pat_completeness auto

termination split_sentences_from
  by (relation "measure (\<lambda>(cur, s). length s)")
     (auto simp: less_Suc_eq_le length_dropWhile_le)

definition split_sentences :: "string \<Rightarrow> string list" where
  "split_sentences s = split_sentences_from [] s"

text \<open>
  The slice \<^verbatim>\<open>xs[:k]\<close> for an integer \<open>k\<close>: the first \<open>k\<close> elements, and for a
  negative \<open>k\<close> all but the last \<open>-k\<close>.
\<close>

definition slice_to :: "int \<Rightarrow> 'a list \<Rightarrow> 'a list" where
  "slice_to k xs = (if 0 \<le> k then take (nat k) xs else take (nat (int (length xs) + k)) xs)"

definition summarize_text :: "string \<Rightarrow> int \<Rightarrow> string" where
  "summarize_text txt max_sentences =
     (if txt = [] \<or> strip txt = [] then []
      else
        (let sentences = split_sentences (strip txt);
             sentences = filter (\<lambda>s. length (split_ws s) \<ge> 3) sentences;
             summary = strip (join '' '' (slice_to max_sentences sentences))
         in if sentences \<noteq> [] \<and> summary \<noteq> [] then summary
            else strip (take 200 txt) @ (if length txt > 200 then ''...'' else [])))"

section \<open>Titles (inference.py)\<close>

definition normalize_title :: "string \<Rightarrow> string" where
  "normalize_title t = join '' '' (split_ws (lower t))"

text \<open>
  \<^verbatim>\<open>re.match\<close> of the three noise patterns. Each pattern is anchored at the start
  and is an alternative of literal prefixes, but for the digits of the third one:
  \<^verbatim>\<open>page \d+\<close>, \<^verbatim>\<open>page\d+\<close> and \<^verbatim>\<open>\d+ of \d+\<close>.
\<close>

definition starts_with :: "string \<Rightarrow> string \<Rightarrow> bool" where
  "starts_with p s = (take (length p) s = p)"

definition digit_at :: "string \<Rightarrow> nat \<Rightarrow> bool" where
  "digit_at s i = (i < length s \<and> isdigit (s ! i))"

definition noise_navigation :: "string list" where
  "noise_navigation =
     [''home'', ''menu'', ''search'', ''login'', ''sign'', ''account'', ''profile'',
      ''settings'', ''help'', ''support'', ''contact'', ''about'', ''privacy'', ''terms'',
      ''cookie'']"

definition noise_jump :: "string list" where
  "noise_jump = [''skip'', ''jump'', ''back'', ''next'', ''previous'', ''top'', ''bottom'']"

definition noise_paging :: "string \<Rightarrow> bool" where
  "noise_paging s =
     ((starts_with ''page '' s \<and> digit_at s 5) \<or>
      (starts_with ''page'' s \<and> digit_at s 4) \<or>
      (takeWhile isdigit s \<noteq> [] \<and> starts_with '' of '' (dropWhile isdigit s) \<and>
       digit_at (dropWhile isdigit s) 4))"

definition is_valid_module_title :: "string \<Rightarrow> bool" where
  "is_valid_module_title t =
     (if t = [] \<or> length t < 3 then False
      else
        (let title_lower = strip (lower t)
         in if list_ex (\<lambda>w. starts_with w title_lower) noise_navigation then False
            else if list_ex (\<lambda>w. starts_with w title_lower) noise_jump then False
            else if noise_paging title_lower then False
            else True))"

text \<open>
  \<^verbatim>\<open>merge_similar_titles(titles, threshold)\<close>. The dictionary is only read by key,
  so it is a map. \<^verbatim>\<open>SequenceMatcher(None, a, b).ratio()\<close> is the library's: the
  parameter \<open>ratio\<close>.
\<close>

fun merge_inner ::
  "(string \<Rightarrow> string \<Rightarrow> real) \<Rightarrow> real \<Rightarrow> string \<Rightarrow> string list \<Rightarrow> (string \<rightharpoonup> string)
     \<Rightarrow> (string \<rightharpoonup> string)" where
  "merge_inner ratio threshold title1 [] canonical = canonical"
| "merge_inner ratio threshold title1 (title2 # rest) canonical =
     merge_inner ratio threshold title1 rest
       (if ratio (normalize_title title1) (normalize_title title2) \<ge> threshold
        then (let canonical_title = (if length title1 \<le> length title2 then title1 else title2)
              in canonical(title1 \<mapsto> canonical_title, title2 \<mapsto> canonical_title))
        else canonical)"

fun merge_outer ::
  "(string \<Rightarrow> string \<Rightarrow> real) \<Rightarrow> real \<Rightarrow> string list \<Rightarrow> (string \<rightharpoonup> string)
     \<Rightarrow> (string \<rightharpoonup> string)" where
  "merge_outer ratio threshold [] canonical = canonical"
| "merge_outer ratio threshold (title1 # rest) canonical =
     merge_outer ratio threshold rest (merge_inner ratio threshold title1 rest canonical)"

definition merge_similar_titles ::
  "(string \<Rightarrow> string \<Rightarrow> real) \<Rightarrow> string list \<Rightarrow> real \<Rightarrow> (string \<rightharpoonup> string)" where
  "merge_similar_titles ratio titles threshold =
     merge_outer ratio threshold titles (foldl (\<lambda>canonical t. canonical(t \<mapsto> t)) Map.empty titles)"

section \<open>Descriptions (inference.py)\<close>

definition module_description :: "Section \<Rightarrow> string" where
  "module_description sec =
     (let content = strip (text' sec);
          child_texts = map (\<lambda>child. strip (text' child))
                          (filter (\<lambda>child. strip (text' child) \<noteq> []) (take 5 (children sec)));
          full_content = join '' '' ([content] @ child_texts)
      in if strip full_content = [] then ''Module for '' @ title sec @ ''.''
         else summarize_text full_content 3)"

definition submodule_description :: "Section \<Rightarrow> string" where
  "submodule_description sec =
     (if strip (text' sec) \<noteq> [] then summarize_text (text' sec) 2
      else ''Functionality related to '' @ title sec @ ''.'')"

section \<open>Confidence (inference.py)\<close>

text \<open>
  \<^verbatim>\<open>calculate_confidence(section, is_module)\<close>. Python's floats are modelled as
  \<^typ>\<open>real\<close>: the arithmetic is exact.
\<close>

definition calculate_confidence :: "Section \<Rightarrow> bool \<Rightarrow> real" where
  "calculate_confidence section is_module =
     (let base = (if is_module then 0.6 else 0.5);
          text_length = length (split_ws (text' section));
          length_bonus = min 0.2 (real text_length * 0.01);
          structure_bonus = (if children section \<noteq> [] then 0.1 else 0);
          title_penalty = (if length (split_ws (title section)) < 2 then 0.1 else 0);
          confidence = base + length_bonus + structure_bonus - title_penalty
      in min 0.95 (max 0.3 confidence))"

section \<open>Module inference (inference.py, utils.py)\<close>

text \<open>
  A dictionary that is iterated keeps its keys in insertion order: an association list
  with one entry for each key. \<open>dd_update d f k\<close> is \<^verbatim>\<open>m[k] = f(m[k])\<close> on a
  \<^verbatim>\<open>defaultdict\<close> whose default value is \<open>d\<close>, and \<open>dd_get d k\<close> reads
  \<^verbatim>\<open>m[k]\<close> there.
\<close>

fun dd_update :: "'v \<Rightarrow> ('v \<Rightarrow> 'v) \<Rightarrow> string \<Rightarrow> (string \<times> 'v) list \<Rightarrow> (string \<times> 'v) list" where
  "dd_update d f k [] = [(k, f d)]"
| "dd_update d f k ((k', v) # kvs) =
     (if k = k' then (k', f v) # kvs else (k', v) # dd_update d f k kvs)"

definition dd_get :: "'v \<Rightarrow> string \<Rightarrow> (string \<times> 'v) list \<Rightarrow> 'v" where
  "dd_get d k kvs = (case map_of kvs k of None \<Rightarrow> d | Some v \<Rightarrow> v)"

text \<open>
  A Python \<^verbatim>\<open>set\<close> of strings is a list without repetition. The order in which
  Python iterates over a set is the implementation's; the model keeps insertion order,
  and the properties below speak of the elements only.
\<close>

definition set_add :: "string \<Rightarrow> string list \<Rightarrow> string list" where
  "set_add x xs = (if x \<in> set xs then xs else xs @ [x])"

definition set_update :: "string list \<Rightarrow> string list \<Rightarrow> string list" where
  "set_update xs ys = foldl (\<lambda>acc y. set_add y acc) xs ys"

definition dedupe_preserve_order :: "string list \<Rightarrow> string list" where
  "dedupe_preserve_order items =
     snd (foldl (\<lambda>(seen, result) item.
                   if item \<in> seen then (seen, result) else (insert item seen, result @ [item]))
            ({}, []) items)"

text \<open>
  \<^verbatim>\<open>extract_sections\<close>. Parsing the markup and walking its elements is
  BeautifulSoup's: the parameter \<open>blocks_of\<close> stands for
  \<^verbatim>\<open>extract_text_blocks(strip_noise(html))\<close> and may raise.
\<close>

datatype error = ParseFailure | KeyError string | ValueError

definition extract_sections ::
  "(string \<Rightarrow> error + (string \<times> string) list) \<Rightarrow> string \<Rightarrow> error + Section list" where
  "extract_sections blocks_of html =
     (case blocks_of html of Inl e \<Rightarrow> Inl e | Inr blocks \<Rightarrow> Inr (build_sections blocks))"

definition infer_from_sections :: "Section list \<Rightarrow> string \<Rightarrow> (string \<times> Section list) list" where
  "infer_from_sections sections source_url =
     foldl (\<lambda>grouped sec.
              if \<not> is_valid_module_title (title sec) then grouped
              else dd_update [] (\<lambda>l. l @ [sec]) (title sec) grouped)
       [] sections"

text \<open>
  The first loop of \<^verbatim>\<open>infer_modules\<close>, over the pages; its state is
  \<^verbatim>\<open>(module_sections, section_sources)\<close>. Only \<^verbatim>\<open>extract_sections\<close> can
  raise in the body, before anything is stored, and the exception is caught: the page is
  skipped. The list \<^verbatim>\<open>all_titles\<close> is written and never read; it is left out.
\<close>

type_synonym page_state = "(string \<times> Section list) list \<times> (string \<times> string list) list"

definition add_group :: "string \<Rightarrow> page_state \<Rightarrow> string \<times> Section list \<Rightarrow> page_state" where
  "add_group url st g =
     (let valid_secs = filter (\<lambda>s. level s \<le> 2) (snd g)
      in if valid_secs \<noteq> []
         then (dd_update [] (\<lambda>l. l @ valid_secs) (fst g) (fst st),
               dd_update [] (set_add url) (fst g) (snd st))
         else st)"

definition add_page ::
  "(string \<Rightarrow> error + (string \<times> string) list) \<Rightarrow> page_state \<Rightarrow> string \<times> string \<Rightarrow> page_state" where
  "add_page blocks_of st p =
     (case extract_sections blocks_of (snd p) of
        Inl e \<Rightarrow> st
      | Inr sections \<Rightarrow> foldl (add_group (fst p)) st (infer_from_sections sections (fst p)))"

text \<open>
  The second loop: \<^verbatim>\<open>merged_modules\<close> and \<^verbatim>\<open>merged_sources\<close> by canonical
  title. \<^verbatim>\<open>title_mapping[orig_title]\<close> raises KeyError on a missing key.
\<close>

fun reorganize ::
  "(string \<rightharpoonup> string) \<Rightarrow> (string \<times> string list) list \<Rightarrow> (string \<times> Section list) list
     \<Rightarrow> page_state \<Rightarrow> error + page_state" where
  "reorganize title_mapping section_sources [] acc = Inr acc"
| "reorganize title_mapping section_sources ((orig_title, sections) # rest) acc =
     (case title_mapping orig_title of
        None \<Rightarrow> Inl (KeyError orig_title)
      | Some canonical \<Rightarrow>
          reorganize title_mapping section_sources rest
            (dd_update [] (\<lambda>l. l @ sections) canonical (fst acc),
             dd_update [] (\<lambda>u. set_update u (dd_get [] orig_title section_sources))
               canonical (snd acc)))"

text \<open>The third loop: one module for each canonical title.\<close>

definition make_submodule :: "string list \<Rightarrow> Section \<Rightarrow> submodule" where
  "make_submodule urls child =
     \<lparr>sm_name = title child,
      sm_description = submodule_description child,
      sm_source_urls = dedupe_preserve_order urls,
      sm_confidence = calculate_confidence child False\<rparr>"

definition add_submodule ::
  "string list \<Rightarrow> (string \<times> submodule) list \<Rightarrow> Section \<Rightarrow> (string \<times> submodule) list" where
  "add_submodule urls submodule_map child =
     (if level child \<le> 4 \<and> is_valid_module_title (title child)
      then (if map_of submodule_map (title child) = None
            then submodule_map @ [(title child, make_submodule urls child)]
            else submodule_map)
      else submodule_map)"

definition collect_submodules :: "string list \<Rightarrow> Section list \<Rightarrow> (string \<times> submodule) list" where
  "collect_submodules urls secs =
     foldl (\<lambda>submodule_map sec. foldl (add_submodule urls) submodule_map (children sec)) [] secs"

definition add_module ::
  "(string \<times> string list) list \<Rightarrow> module list \<Rightarrow> string \<times> Section list \<Rightarrow> module list" where
  "add_module merged_sources modules entry =
     (case snd entry of
        [] \<Rightarrow> modules
      | top_section # _ \<Rightarrow>
          (let urls = dd_get [] (fst entry) merged_sources
           in modules @
              [\<lparr>name = fst entry,
                description = module_description top_section,
                submodules = map snd (collect_submodules urls (snd entry)),
                source_urls = dedupe_preserve_order urls,
                confidence = calculate_confidence top_section True\<rparr>]))"

text \<open>
  \<^verbatim>\<open>infer_modules(pages)\<close>: \<open>pages\<close> are the items of the dictionary, in order.
  \<^verbatim>\<open>modules.sort(key=..., reverse=True)\<close> is stable: it is the stable sort by the
  negated confidence.
\<close>

definition infer_modules ::
  "(string \<Rightarrow> error + (string \<times> string) list) \<Rightarrow> (string \<Rightarrow> string \<Rightarrow> real)
     \<Rightarrow> (string \<times> string) list \<Rightarrow> error + module list" where
  "infer_modules blocks_of ratio pages =
     (if pages = [] then Inr []
      else
        (let st = foldl (add_page blocks_of) ([], []) pages;
             module_sections = fst st;
             section_sources = snd st
         in if module_sections = [] then Inr []
            else
              (let title_mapping = merge_similar_titles ratio (map fst module_sections) 0.8
               in case reorganize title_mapping section_sources module_sections ([], []) of
                    Inl e \<Rightarrow> Inl e
                  | Inr merged \<Rightarrow>
                      Inr (sort_key (\<lambda>m. - confidence m)
                             (foldl (add_module (snd merged)) [] (fst merged))))))"

section \<open>URL normalization (utils.py)\<close>

text \<open>
  \<^verbatim>\<open>normalize_url\<close> calls \<^verbatim>\<open>urlparse\<close>, \<^verbatim>\<open>urljoin\<close> and
  \<^verbatim>\<open>geturl\<close> of Python's \<^verbatim>\<open>urllib.parse\<close>. They are modelled after the
  library's source (CPython 3.11), with its \<^verbatim>\<open>ValueError\<close> as a value. Two checks
  of the library are not string functions: \<^verbatim>\<open>_check_bracketed_host\<close>, which parses an
  IP address and is the parameter \<open>bracketed_host_ok\<close>, and \<^verbatim>\<open>_checknetloc\<close>, which
  looks for a delimiter in the compatibility normal form of a non-ASCII host and finds
  none for the code points 0 to 255, so that it never raises here.
\<close>

text \<open>The character classes of \<^verbatim>\<open>urlsplit\<close>.\<close>

definition c0_or_space :: "char \<Rightarrow> bool" where
  "c0_or_space c = ((of_char c :: nat) \<le> 32)"

definition unsafe_byte :: "char \<Rightarrow> bool" where
  "unsafe_byte c = (c = CHR 0x09 \<or> c = CHR 0x0D \<or> c = CHR 0x0A)"

definition ascii_alpha :: "char \<Rightarrow> bool" where
  "ascii_alpha c = (let n = (of_char c :: nat) in (65 \<le> n \<and> n \<le> 90) \<or> (97 \<le> n \<and> n \<le> 122))"

definition scheme_char :: "char \<Rightarrow> bool" where
  "scheme_char c =
     (ascii_alpha c \<or> isdigit c \<or> c = CHR ''+'' \<or> c = CHR ''-'' \<or> c = CHR ''.'')"

text \<open>\<^verbatim>\<open>s.partition(c)\<close>: the part before the first \<open>c\<close>, and the part behind it.\<close>

definition before :: "char \<Rightarrow> string \<Rightarrow> string" where
  "before c s = takeWhile (\<lambda>x. x \<noteq> c) s"

definition after :: "char \<Rightarrow> string \<Rightarrow> string" where
  "after c s = drop 1 (dropWhile (\<lambda>x. x \<noteq> c) s)"

text \<open>The library's tables of schemes.\<close>

definition uses_relative :: "string list" where
  "uses_relative =
     ['''', ''ftp'', ''http'', ''gopher'', ''nntp'', ''imap'', ''wais'', ''file'', ''https'',
      ''shttp'', ''mms'', ''prospero'', ''rtsp'', ''rtsps'', ''rtspu'', ''sftp'', ''svn'',
      ''svn+ssh'', ''ws'', ''wss'']"

definition uses_netloc :: "string list" where
  "uses_netloc =
     ['''', ''ftp'', ''http'', ''gopher'', ''nntp'', ''telnet'', ''imap'', ''wais'', ''file'',
      ''mms'', ''https'', ''shttp'', ''snews'', ''prospero'', ''rtsp'', ''rtsps'', ''rtspu'',
      ''rsync'', ''svn'', ''svn+ssh'', ''sftp'', ''nfs'', ''git'', ''git+ssh'', ''ws'', ''wss'']"

definition uses_params :: "string list" where
  "uses_params =
     ['''', ''ftp'', ''hdl'', ''prospero'', ''http'', ''imap'', ''https'', ''shttp'', ''rtsp'',
      ''rtsps'', ''rtspu'', ''sip'', ''sips'', ''mms'', ''sftp'', ''tel'']"

text \<open>\<^verbatim>\<open>ParseResult\<close>.\<close>

record parse_result =
  scheme :: string
  netloc :: string
  path :: string
  params :: string
  query :: string
  fragment :: string

text \<open>
  \<^verbatim>\<open>urlsplit(url, scheme)\<close>, in the order of its source: a scheme is split off when the
  text before the first colon starts with an ASCII letter and consists of scheme
  characters; a host is split off behind \<^verbatim>\<open>//\<close>, up to the first of
  \<^verbatim>\<open>/ ? #\<close>; then the fragment behind the first \<^verbatim>\<open>#\<close> and the query behind
  the first \<^verbatim>\<open>?\<close>.
\<close>

definition split_scheme :: "string \<Rightarrow> string \<Rightarrow> string \<times> string" where
  "split_scheme dflt u =
     (let i = length (before CHR '':'' u)
      in if CHR '':'' \<in> set u \<and> i > 0 \<and> ascii_alpha (hd u) \<and> list_all scheme_char (take i u)
         then (lower (take i u), drop (i + 1) u)
         else (dflt, u))"

definition netloc_delim :: "char \<Rightarrow> bool" where
  "netloc_delim c = (c = CHR ''/'' \<or> c = CHR ''?'' \<or> c = CHR ''#'')"

definition splitnetloc :: "string \<Rightarrow> string \<times> string" where
  "splitnetloc u =
     (takeWhile (\<lambda>c. \<not> netloc_delim c) (drop 2 u), dropWhile (\<lambda>c. \<not> netloc_delim c) (drop 2 u))"

definition split_first :: "char \<Rightarrow> string \<Rightarrow> string \<times> string" where
  "split_first c u = (if c \<in> set u then (before c u, after c u) else (u, []))"

definition clean_url :: "string \<Rightarrow> string" where
  "clean_url u = filter (\<lambda>c. \<not> unsafe_byte c) (dropWhile c0_or_space u)"

definition clean_scheme :: "string \<Rightarrow> string" where
  "clean_scheme s =
     filter (\<lambda>c. \<not> unsafe_byte c) (rev (dropWhile c0_or_space (rev (dropWhile c0_or_space s))))"

definition urlsplit ::
  "(string \<Rightarrow> bool) \<Rightarrow> string \<Rightarrow> string \<Rightarrow> error + (string \<times> string \<times> string \<times> string \<times> string)" where
  "urlsplit bracketed_host_ok url0 scheme0 =
     (let (s, u) = split_scheme (clean_scheme scheme0) (clean_url url0);
          (nl, u) = (if take 2 u = ''//'' then splitnetloc u else ([], u))
      in if (CHR ''['' \<in> set nl \<and> CHR '']'' \<notin> set nl) \<or>
            (CHR '']'' \<in> set nl \<and> CHR ''['' \<notin> set nl)
         then Inl ValueError
         else if CHR ''['' \<in> set nl \<and> CHR '']'' \<in> set nl \<and>
                 \<not> bracketed_host_ok (before CHR '']'' (after CHR ''['' nl))
         then Inl ValueError
         else
           (let (u, frag) = split_first CHR ''#'' u;
                (u, q) = split_first CHR ''?'' u
            in Inr (s, nl, u, q, frag)))"

text \<open>
  \<^verbatim>\<open>_splitparams\<close> and \<^verbatim>\<open>urlparse\<close>: the parameters are what follows the first
  semicolon of the last path segment.
\<close>

definition splitparams :: "string \<Rightarrow> string \<times> string" where
  "splitparams u =
     (if CHR ''/'' \<in> set u
      then (let k = length u - length (before CHR ''/'' (rev u)) - 1;
                tail = drop k u
            in if CHR '';'' \<in> set tail
               then (take k u @ before CHR '';'' tail, after CHR '';'' tail)
               else (u, []))
      else if CHR '';'' \<in> set u then (before CHR '';'' u, after CHR '';'' u)
      else (butlast u, u))"

definition urlparse :: "(string \<Rightarrow> bool) \<Rightarrow> string \<Rightarrow> string \<Rightarrow> error + parse_result" where
  "urlparse bracketed_host_ok url0 scheme0 =
     (case urlsplit bracketed_host_ok url0 scheme0 of
        Inl e \<Rightarrow> Inl e
      | Inr (s, nl, u, q, frag) \<Rightarrow>
          (let (u, ps) = (if s \<in> set uses_params \<and> CHR '';'' \<in> set u then splitparams u
                          else (u, []))
           in Inr \<lparr>scheme = s, netloc = nl, path = u, params = ps, query = q, fragment = frag\<rparr>))"

text \<open>\<^verbatim>\<open>urlunsplit\<close> and \<^verbatim>\<open>urlunparse\<close>, which is \<^verbatim>\<open>geturl\<close>.\<close>

definition urlunsplit :: "string \<Rightarrow> string \<Rightarrow> string \<Rightarrow> string \<Rightarrow> string \<Rightarrow> string" where
  "urlunsplit s nl u0 q frag =
     (let u = (if nl \<noteq> [] \<or> (s \<noteq> [] \<and> s \<in> set uses_netloc) \<or> take 2 u0 = ''//''
               then ''//'' @ nl @ (if u0 \<noteq> [] \<and> take 1 u0 \<noteq> ''/'' then ''/'' @ u0 else u0)
               else u0);
          u = (if s \<noteq> [] then s @ '':'' @ u else u);
          u = (if q \<noteq> [] then u @ ''?'' @ q else u);
          u = (if frag \<noteq> [] then u @ ''#'' @ frag else u)
      in u)"

definition urlunparse :: "parse_result \<Rightarrow> string" where
  "urlunparse p =
     urlunsplit (scheme p) (netloc p)
       (if params p \<noteq> [] then path p @ '';'' @ params p else path p) (query p) (fragment p)"


text \<open>
  \<^verbatim>\<open>urljoin(base, url)\<close>: \<^verbatim>\<open>s.split('/')\<close>, the loop that resolves the dot
  segments (a \<^verbatim>\<open>..\<close> with nothing to pop is ignored), and the function.
\<close>

fun split_on :: "char \<Rightarrow> string \<Rightarrow> string list" where
  "split_on c [] = [[]]"
| "split_on c (x # xs) =
     (if x = c then [] # split_on c xs
      else (case split_on c xs of w # ws \<Rightarrow> (x # w) # ws | [] \<Rightarrow> [[x]]))"

fun resolve_segments :: "string list \<Rightarrow> string list \<Rightarrow> string list" where
  "resolve_segments resolved_path [] = resolved_path"
| "resolve_segments resolved_path (seg # segments) =
     (if seg = ''..'' then resolve_segments (butlast resolved_path) segments
      else if seg = ''.'' then resolve_segments resolved_path segments
      else resolve_segments (resolved_path @ [seg]) segments)"

definition urljoin :: "(string \<Rightarrow> bool) \<Rightarrow> string \<Rightarrow> string \<Rightarrow> error + string" where
  "urljoin bracketed_host_ok base u =
     (if base = [] then Inr u
      else if u = [] then Inr base
      else
        (case urlparse bracketed_host_ok base [] of
           Inl e \<Rightarrow> Inl e
         | Inr b \<Rightarrow>
             (case urlparse bracketed_host_ok u (scheme b) of
                Inl e \<Rightarrow> Inl e
              | Inr p \<Rightarrow>
                  if scheme p \<noteq> scheme b \<or> scheme p \<notin> set uses_relative then Inr u
                  else if scheme p \<in> set uses_netloc \<and> netloc p \<noteq> [] then Inr (urlunparse p)
                  else
                    (let nl = (if scheme p \<in> set uses_netloc then netloc b else netloc p)
                     in if path p = [] \<and> params p = []
                        then Inr (urlunparse
                               (p\<lparr>netloc := nl, path := path b, params := params b,
                                  query := (if query p = [] then query b else query p)\<rparr>))
                        else
                          (let base_parts = split_on CHR ''/'' (path b);
                               base_parts = (if last base_parts \<noteq> [] then butlast base_parts
                                             else base_parts);
                               segments =
                                 (if take 1 (path p) = ''/'' then split_on CHR ''/'' (path p)
                                  else (let segs = base_parts @ split_on CHR ''/'' (path p)
                                        in if length segs \<ge> 2
                                           then [hd segs] @
                                                filter (\<lambda>seg. seg \<noteq> []) (butlast (tl segs)) @
                                                [last segs]
                                           else segs));
                               resolved_path = resolve_segments [] segments;
                               resolved_path =
                                 (if last segments = ''.'' \<or> last segments = ''..''
                                  then resolved_path @ [[]] else resolved_path);
                               joined = join ''/'' resolved_path
                           in Inr (urlunparse
                                (p\<lparr>netloc := nl,
                                   path := (if joined \<noteq> [] then joined else ''/'')\<rparr>)))))))"

text \<open>\<^verbatim>\<open>normalize_url(base_url, link)\<close> of utils.py.\<close>

definition normalize_url :: "(string \<Rightarrow> bool) \<Rightarrow> string \<Rightarrow> string \<Rightarrow> error + string" where
  "normalize_url bracketed_host_ok base_url link =
     (case urlparse bracketed_host_ok base_url [] of
        Inl e \<Rightarrow> Inl e
      | Inr parsed_base \<Rightarrow>
          (case urljoin bracketed_host_ok base_url link of
             Inl e \<Rightarrow> Inl e
           | Inr joined \<Rightarrow>
               (case urlparse bracketed_host_ok joined [] of
                  Inl e \<Rightarrow> Inl e
                | Inr parsed \<Rightarrow>
                    if scheme parsed \<notin> {''http'', ''https''} then Inr []
                    else Inr (urlunparse (parsed\<lparr>fragment := []\<rparr>)))))"

section \<open>Crawler (crawler.py)\<close>

text \<open>
  A crawler is its two bounds and its collaborators. \<^verbatim>\<open>fetch\<close> stands for the method
  of that name with its caches and the transport behind it: within one crawl a URL is
  marked visited before it is fetched, so it is fetched at most once, and what the
  transport answers in that crawl is a function of the URL. The method catches the
  exceptions of the transport and returns \<^verbatim>\<open>None\<close> for them; \<open>Inl\<close> is an exception
  it does not catch. \<^verbatim>\<open>extract_links\<close> stands for the method of that name (markup
  parsing, URL normalization and the domain check); it raises what
  \<^verbatim>\<open>normalize_url\<close> raises. \<open>host_ok\<close> is the library's check of a bracketed host,
  for \<^verbatim>\<open>urlparse\<close>.
\<close>

record page =
  p_url :: string
  p_html :: string
  p_status :: int

record crawler =
  max_pages :: int
  max_depth :: int
  fetch :: "string \<Rightarrow> error + page option"
  extract_links :: "string \<Rightarrow> string \<Rightarrow> error + string list"
  host_ok :: "string \<Rightarrow> bool"

text \<open>
  The loop of \<^verbatim>\<open>crawl\<close>, with the queue, the visited set and the pages as its state.
  With every page the loop records the URL that was dequeued for it and its depth, which
  the source does not keep; \<open>crawl\<close> returns the pages alone. An exception of
  \<^verbatim>\<open>urlparse\<close>, \<^verbatim>\<open>fetch\<close> or \<^verbatim>\<open>extract_links\<close> ends the crawl. The loop
  ends because every round either adds a page, of which there are fewer than
  \<^verbatim>\<open>max_pages\<close>, or shortens the queue.
\<close>

function crawl_trace_loop ::
  "crawler \<Rightarrow> (string \<times> int) list \<Rightarrow> string set \<Rightarrow> (string \<times> int \<times> page) list
     \<Rightarrow> error + (string \<times> int \<times> page) list" where
  "crawl_trace_loop c queue visited trace =
     (case queue of
        [] \<Rightarrow> Inr trace
      | (u, depth) # rest \<Rightarrow>
          if \<not> int (length trace) < max_pages c then Inr trace
          else if u \<in> visited \<or> depth > max_depth c then crawl_trace_loop c rest visited trace
          else
            (case urlparse (host_ok c) u [] of
               Inl e \<Rightarrow> Inl e
             | Inr parsed \<Rightarrow>
                 if scheme parsed \<notin> {''http'', ''https''}
                 then crawl_trace_loop c rest (insert u visited) trace
                 else
                   (case fetch c u of
                      Inl e \<Rightarrow> Inl e
                    | Inr None \<Rightarrow> crawl_trace_loop c rest (insert u visited) trace
                    | Inr (Some pg) \<Rightarrow>
                        (case extract_links c u (p_html pg) of
                           Inl e \<Rightarrow> Inl e
                         | Inr links \<Rightarrow>
                             crawl_trace_loop c
                               (rest @ map (\<lambda>link. (link, depth + 1))
                                         (filter (\<lambda>link. link \<notin> insert u visited) links))
                               (insert u visited) (trace @ [(u, depth, pg)])))))"
  by pat_completeness auto

termination crawl_trace_loop
  by (relation "measures [\<lambda>(c, queue, visited, trace). nat (max_pages c - int (length trace)),
                          \<lambda>(c, queue, visited, trace). length queue]")
     auto

declare crawl_trace_loop.simps [simp del]

definition crawl_trace :: "crawler \<Rightarrow> string list \<Rightarrow> error + (string \<times> int \<times> page) list" where
  "crawl_trace c roots = crawl_trace_loop c (map (\<lambda>r. (r, 0)) roots) {} []"

definition crawl :: "crawler \<Rightarrow> string list \<Rightarrow> error + page list" where
  "crawl c roots = map_sum id (map (\<lambda>e. snd (snd e))) (crawl_trace c roots)"

text \<open>
  \<open>hops c roots u d\<close>: the URL \<open>u\<close> is \<open>d\<close> links away from a seed, along links of
  pages that can be fetched.
\<close>

inductive hops :: "crawler \<Rightarrow> string list \<Rightarrow> string \<Rightarrow> int \<Rightarrow> bool" for c roots where
  seed: "u \<in> set roots \<Longrightarrow> hops c roots u 0"
| link: "hops c roots v d \<Longrightarrow> fetch c v = Inr (Some pg) \<Longrightarrow>
         extract_links c v (p_html pg) = Inr links \<Longrightarrow> u \<in> set links \<Longrightarrow>
         hops c roots u (d + 1)"

text \<open>Invariants of the loop, and a small site to run it on.\<close>

definition queue_ok :: "crawler \<Rightarrow> string list \<Rightarrow> (string \<times> int) list \<Rightarrow> bool" where
  "queue_ok c roots queue = (\<forall>e \<in> set queue. hops c roots (fst e) (snd e))"

definition trace_ok :: "crawler \<Rightarrow> string list \<Rightarrow> (string \<times> int \<times> page) list \<Rightarrow> bool" where
  "trace_ok c roots trace =
     (\<forall>e \<in> set trace. fst (snd e) \<le> max_depth c \<and> hops c roots (fst e) (fst (snd e)) \<and>
                       fetch c (fst e) = Inr (Some (snd (snd e))))"

definition raised :: "crawler \<Rightarrow> error \<Rightarrow> bool" where
  "raised c e =
     ((\<exists>u. urlparse (host_ok c) u [] = Inl e) \<or> (\<exists>u. fetch c u = Inl e) \<or>
      (\<exists>u h. extract_links c u h = Inl e))"

definition crawl_measure ::
  "crawler \<Rightarrow> (((string \<times> int) list \<times> string set \<times> (string \<times> int \<times> page) list) \<times>
               ((string \<times> int) list \<times> string set \<times> (string \<times> int \<times> page) list)) set" where
  "crawl_measure c =
     measures [\<lambda>(queue, visited, trace). nat (max_pages c - int (length trace)),
               \<lambda>(queue, visited, trace). length queue]"

definition example_crawler :: crawler where
  "example_crawler =
     \<lparr>max_pages = 2, max_depth = 1,
      fetch = (\<lambda>u. Inr (if u = ''http://a/'' then Some \<lparr>p_url = u, p_html = ''A'', p_status = 200\<rparr>
                        else if u = ''http://a/b'' then Some \<lparr>p_url = u, p_html = ''B'', p_status = 200\<rparr>
                        else if u = ''http://a/c'' then Some \<lparr>p_url = u, p_html = ''C'', p_status = 200\<rparr>
                        else None)),
      extract_links = (\<lambda>base h. Inr (if h = ''A'' then [''http://a/b'', ''http://a/'', ''http://a/c'']
                                       else if h = ''B'' then [''http://a/c''] else [])),
      host_ok = (\<lambda>h. True)\<rparr>"

section \<open>What the inference is checked against\<close>

text \<open>
  The module candidates of a page: its top-level sections with a valid title and a level
  of at most 2. A page whose markup cannot be processed has none.
\<close>

definition page_candidates ::
  "(string \<Rightarrow> error + (string \<times> string) list) \<Rightarrow> string \<Rightarrow> Section list" where
  "page_candidates blocks_of html =
     (case extract_sections blocks_of html of
        Inl e \<Rightarrow> []
      | Inr sections \<Rightarrow> filter (\<lambda>s. is_valid_module_title (title s) \<and> level s \<le> 2) sections)"

text \<open>
  The intermediate results of a run, named: \<^verbatim>\<open>module_sections\<close> after the loop over
  the pages, the title mapping computed from its keys, and the sections that contribute to
  a canonical title, in the order in which the module's loop meets them.
\<close>

definition module_sections_of ::
  "(string \<Rightarrow> error + (string \<times> string) list) \<Rightarrow> (string \<times> string) list
     \<Rightarrow> (string \<times> Section list) list" where
  "module_sections_of blocks_of pages = fst (foldl (add_page blocks_of) ([], []) pages)"

definition title_mapping_of ::
  "(string \<Rightarrow> error + (string \<times> string) list) \<Rightarrow> (string \<Rightarrow> string \<Rightarrow> real)
     \<Rightarrow> (string \<times> string) list \<Rightarrow> (string \<rightharpoonup> string)" where
  "title_mapping_of blocks_of ratio pages =
     merge_similar_titles ratio (map fst (module_sections_of blocks_of pages)) 0.8"

definition contributing_sections ::
  "(string \<Rightarrow> error + (string \<times> string) list) \<Rightarrow> (string \<Rightarrow> string \<Rightarrow> real)
     \<Rightarrow> (string \<times> string) list \<Rightarrow> string \<Rightarrow> Section list" where
  "contributing_sections blocks_of ratio pages c =
     concat (map snd (filter (\<lambda>e. title_mapping_of blocks_of ratio pages (fst e) = Some c)
                        (module_sections_of blocks_of pages)))"

text \<open>
  A child section that becomes a submodule, and the elements of a list that are the first
  with their title.
\<close>

definition submodule_candidate :: "Section \<Rightarrow> bool" where
  "submodule_candidate c = (level c \<le> 4 \<and> is_valid_module_title (title c))"

definition first_by_title :: "Section list \<Rightarrow> Section list" where
  "first_by_title cs =
     map (\<lambda>i. cs ! i) (filter (\<lambda>i. title (cs ! i) \<notin> title ` set (take i cs)) [0 ..< length cs])"

text \<open>Invariants of the loops.\<close>

definition closed_on :: "string set \<Rightarrow> (string \<rightharpoonup> string) \<Rightarrow> bool" where
  "closed_on T c = (dom c = T \<and> (\<forall>k v. c k = Some v \<longrightarrow> v \<in> T))"

definition groups_ok :: "Section set \<Rightarrow> (string \<times> Section list) list \<Rightarrow> bool" where
  "groups_ok S g =
     (distinct (map fst g) \<and>
      (\<forall>t. set (dd_get [] t g) = {s \<in> S. is_valid_module_title (title s) \<and> title s = t}))"

definition stored_ok :: "page_state \<Rightarrow> bool" where
  "stored_ok st = (distinct (map fst (fst st)) \<and> (\<forall>e \<in> set (fst st). snd e \<noteq> []))"

definition reorganized ::
  "(string \<rightharpoonup> string) \<Rightarrow> (string \<times> string list) list \<Rightarrow> (string \<times> Section list) list
     \<Rightarrow> page_state \<Rightarrow> page_state \<Rightarrow> bool" where
  "reorganized tm ss ms acc res =
     ((distinct (map fst (fst acc)) \<longrightarrow> distinct (map fst (fst res))) \<and>
      fst ` set (fst res) = fst ` set (fst acc) \<union> {c. \<exists>e \<in> set ms. tm (fst e) = Some c} \<and>
      (\<forall>c. dd_get [] c (fst res) =
            dd_get [] c (fst acc) @ concat (map snd (filter (\<lambda>e. tm (fst e) = Some c) ms))) \<and>
      (\<forall>c. set (dd_get [] c (snd res)) =
            set (dd_get [] c (snd acc)) \<union>
            (\<Union>e \<in> {e \<in> set ms. tm (fst e) = Some c}. set (dd_get [] (fst e) ss))))"

definition make_module :: "(string \<times> string list) list \<Rightarrow> string \<times> Section list \<Rightarrow> module" where
  "make_module merged_sources entry =
     \<lparr>name = fst entry,
      description = module_description (hd (snd entry)),
      submodules = map snd (collect_submodules (dd_get [] (fst entry) merged_sources) (snd entry)),
      source_urls = dedupe_preserve_order (dd_get [] (fst entry) merged_sources),
      confidence = calculate_confidence (hd (snd entry)) True\<rparr>"

text \<open>
  A concrete run. The library parts are fixed: the similarity is 1 on equal strings, as
  the library's is, and 0 otherwise; the blocks are those of the two documents below, and
  any other document counts as unreadable.
\<close>

definition same_ratio :: "string \<Rightarrow> string \<Rightarrow> real" where
  "same_ratio a b = (if a = b then 1 else 0)"

definition example_blocks :: "string \<Rightarrow> error + (string \<times> string) list" where
  "example_blocks html =
     (if html = ''<h1>User Management</h1><p>Manage users.</p><h2>Create User</h2><p>How to create.</p>''
      then Inr [(''h1'', ''User Management''), (''p'', ''Manage users.''),
                (''h2'', ''Create User''), (''p'', ''How to create.'')]
      else if html = ''not html'' then Inr []
      else Inl ParseFailure)"

definition example_pages :: "(string \<times> string) list" where
  "example_pages =
     [(''u'', ''<h1>User Management</h1><p>Manage users.</p><h2>Create User</h2><p>How to create.</p>'')]"

definition example_module :: module where
  "example_module =
     \<lparr>name = ''User Management'',
      description = ''How to create.'',
      submodules =
        [\<lparr>sm_name = ''Create User'', sm_description = ''How to create.'',
          sm_source_urls = [''u''], sm_confidence = 0.53\<rparr>],
      source_urls = [''u''],
      confidence = 0.72\<rparr>"

text \<open>
  A page without a heading: two paragraphs of text.
\<close>

definition text_only_blocks :: "string \<Rightarrow> error + (string \<times> string) list" where
  "text_only_blocks html =
     (if html = ''<p>Some text here</p><p>More text</p>''
      then Inr [(''p'', ''Some text here''), (''p'', ''More text'')]
      else Inl ParseFailure)"

definition text_only_pages :: "(string \<times> string) list" where
  "text_only_pages = [(''u'', ''<p>Some text here</p><p>More text</p>'')]"

section \<open>Properties\<close>

text \<open>
  C4. For every section and both values of the flag, the confidence lies between 0.3 and
  0.95, and it is the base 0.6 (module) or 0.5 (submodule), plus the smaller of 0.2 and
  0.01 per word of the text, plus 0.1 when the section has children, minus 0.1 when the
  title has fewer than two words, clamped to the interval from 0.3 to 0.95.
\<close>

theorem calculate_confidence_range:
  "0.3 \<le> calculate_confidence s m \<and> calculate_confidence s m \<le> 0.95 \<and>
   calculate_confidence s m =
     min 0.95 (max 0.3
       ((if m then 0.6 else 0.5)
        + min 0.2 (real (length (split_ws (text' s))) * 0.01)
        + (if children s \<noteq> [] then 0.1 else 0)
        - (if length (split_ws (title s)) < 2 then 0.1 else 0)))"
  by (simp add: calculate_confidence_def Let_def min_def max_def)

subsection \<open>The store of build_sections\<close>

lemma pop_stack_subset: "set (pop_stack h lvl st) \<subseteq> set st"
proof (induction h lvl st rule: pop_stack.induct)
  case (1 h lvl st)
  show ?case
  proof (cases "st \<noteq> [] \<and> n_level (h ! last st) \<ge> lvl")
    case True
    then have "pop_stack h lvl st = pop_stack h lvl (butlast st)"
      by (subst pop_stack.simps) simp
    moreover have "set (butlast st) \<subseteq> set st"
      by (auto dest: in_set_butlastD)
    ultimately show ?thesis using 1 True by auto
  next
    case False
    then show ?thesis by (subst pop_stack.simps) auto
  qed
qed

lemma pop_stack_top:
  "pop_stack h lvl st \<noteq> [] \<Longrightarrow> n_level (h ! last (pop_stack h lvl st)) < lvl"
proof (induction h lvl st rule: pop_stack.induct)
  case (1 h lvl st)
  show ?case
  proof (cases "st \<noteq> [] \<and> n_level (h ! last st) \<ge> lvl")
    case True
    then have "pop_stack h lvl st = pop_stack h lvl (butlast st)"
      by (subst pop_stack.simps) simp
    then show ?thesis using 1 True by auto
  next
    case False
    then have "pop_stack h lvl st = st" by (subst pop_stack.simps) auto
    then show ?thesis using False 1(2) by auto
  qed
qed

lemma wf_heap_text:
  assumes "wf_heap h" "p < length h"
  shows "wf_heap (h[p := (h ! p)\<lparr>n_text := t\<rparr>])"
proof -
  let ?h = "h[p := (h ! p)\<lparr>n_text := t\<rparr>]"
  have lv: "n_level (?h ! a) = n_level (h ! a)" if "a < length h" for a
    using that by (cases "a = p") simp_all
  have ch: "n_children (?h ! a) = n_children (h ! a)" if "a < length h" for a
    using that by (cases "a = p") simp_all
  show ?thesis
    unfolding wf_heap_def
  proof (intro allI impI ballI)
    fix a c assume a: "a < length ?h" and c: "c \<in> set (n_children (?h ! a))"
    from a have a': "a < length h" by simp
    with c have c': "c \<in> set (n_children (h ! a))" by (simp add: ch)
    with assms(1) a' have *: "a < c" "c < length h" "n_level (h ! a) < n_level (h ! c)"
      unfolding wf_heap_def by blast+
    then show "a < c \<and> c < length ?h \<and> n_level (?h ! a) < n_level (?h ! c)"
      using a' by (simp add: lv)
  qed
qed

lemma wf_heap_leaf:
  assumes "wf_heap h" "n_children n = []"
  shows "wf_heap (h @ [n])"
  unfolding wf_heap_def
proof (intro allI impI ballI)
  fix a c assume a: "a < length (h @ [n])" and c: "c \<in> set (n_children ((h @ [n]) ! a))"
  have a': "a < length h"
  proof (rule ccontr)
    assume "\<not> a < length h"
    with a have "a = length h" by simp
    with c assms(2) show False by simp
  qed
  with c have c': "c \<in> set (n_children (h ! a))" by (simp add: nth_append)
  with assms(1) a' have *: "a < c" "c < length h" "n_level (h ! a) < n_level (h ! c)"
    unfolding wf_heap_def by blast+
  then show "a < c \<and> c < length (h @ [n]) \<and> n_level ((h @ [n]) ! a) < n_level ((h @ [n]) ! c)"
    using a' by (simp add: nth_append)
qed

lemma wf_heap_child:
  assumes "wf_heap h" "p < length h" "n_level (h ! p) < n_level n" "n_children n = []"
  shows "wf_heap (h[p := (h ! p)\<lparr>n_children := n_children (h ! p) @ [length h]\<rparr>] @ [n])"
proof -
  let ?u = "h[p := (h ! p)\<lparr>n_children := n_children (h ! p) @ [length h]\<rparr>]"
  let ?h = "?u @ [n]"
  have lv: "n_level (?h ! a) = n_level (h ! a)" if "a < length h" for a
    using that by (cases "a = p") (simp_all add: nth_append)
  have ch: "n_children (?h ! a) = (if a = p then n_children (h ! p) @ [length h] else n_children (h ! a))"
    if "a < length h" for a
    using that by (cases "a = p") (simp_all add: nth_append)
  have top: "?h ! length h = n"
    by (simp add: nth_append)
  show ?thesis
    unfolding wf_heap_def
  proof (intro allI impI ballI)
    fix a c assume a: "a < length ?h" and c: "c \<in> set (n_children (?h ! a))"
    have a': "a < length h"
    proof (rule ccontr)
      assume "\<not> a < length h"
      with a have "a = length h" by simp
      with c assms(4) top show False by simp
    qed
    show "a < c \<and> c < length ?h \<and> n_level (?h ! a) < n_level (?h ! c)"
    proof (cases "c = length h")
      case True
      have "c \<notin> set (n_children (h ! a))"
        using assms(1) a' True unfolding wf_heap_def by blast
      with c a' True have "a = p" by (simp add: ch split: if_splits)
      then show ?thesis
        using True a' assms(3) top by (simp add: lv)
    next
      case False
      with c a' have "c \<in> set (n_children (h ! a))"
        by (auto simp: ch split: if_splits)
      with assms(1) a' have *: "a < c" "c < length h" "n_level (h ! a) < n_level (h ! c)"
        unfolding wf_heap_def by blast+
      then show ?thesis using a' by (simp add: lv)
    qed
  qed
qed

lemma build_step_text_open:
  assumes "level_map (fst b) = None" "stack s \<noteq> []"
  shows "build_step s b =
           s\<lparr>heap := (heap s)[last (stack s) := (heap s ! last (stack s))
                   \<lparr>n_text := (if n_text (heap s ! last (stack s)) \<noteq> []
                                then n_text (heap s ! last (stack s)) @ '' '' @ snd b
                                else snd b)\<rparr>]\<rparr>"
  using assms by (simp add: build_step_def Let_def)

lemma build_step_text_closed:
  assumes "level_map (fst b) = None" "stack s = []"
  shows "build_step s b =
           s\<lparr>heap := heap s @ [\<lparr>n_level = 1, n_title = ''Overview'', n_text = snd b,
                                  n_children = []\<rparr>],
             root := root s @ [length (heap s)]\<rparr>"
  using assms by (simp add: build_step_def Let_def)

lemma build_step_heading_nested:
  assumes "level_map (fst b) = Some lvl" "pop_stack (heap s) lvl (stack s) = st" "st \<noteq> []"
  shows "build_step s b =
           \<lparr>heap = (heap s)[last st := (heap s ! last st)
                     \<lparr>n_children := n_children (heap s ! last st) @ [length (heap s)]\<rparr>]
                   @ [\<lparr>n_level = lvl, n_title = snd b, n_text = [], n_children = []\<rparr>],
            root = root s,
            stack = st @ [length (heap s)]\<rparr>"
  using assms by (simp add: build_step_def Let_def)

lemma build_step_heading_top:
  assumes "level_map (fst b) = Some lvl" "pop_stack (heap s) lvl (stack s) = []"
  shows "build_step s b =
           \<lparr>heap = heap s @ [\<lparr>n_level = lvl, n_title = snd b, n_text = [], n_children = []\<rparr>],
            root = root s @ [length (heap s)],
            stack = [length (heap s)]\<rparr>"
  using assms by (simp add: build_step_def Let_def)

lemma build_step_wf:
  assumes "wf_state s"
  shows "wf_state (build_step s b)"
proof -
  from assms have wf: "wf_heap (heap s)"
    and st: "\<forall>a \<in> set (stack s). a < length (heap s)"
    and rt: "\<forall>a \<in> set (root s). a < length (heap s)"
    by (simp_all add: wf_state_def)
  show ?thesis
  proof (cases "level_map (fst b)")
    case None
    show ?thesis
    proof (cases "stack s = []")
      case True
      have "wf_heap (heap s @ [\<lparr>n_level = 1, n_title = ''Overview'', n_text = snd b,
                                  n_children = []\<rparr>])"
        using wf by (rule wf_heap_leaf) simp
      then show ?thesis
        using st rt by (simp add: build_step_text_closed [OF None True] wf_state_def less_SucI)
    next
      case False
      then have "last (stack s) < length (heap s)"
        using st by simp
      then have "wf_heap ((heap s)[last (stack s) := (heap s ! last (stack s))\<lparr>n_text := t\<rparr>])" for t
        using wf by (intro wf_heap_text)
      then show ?thesis
        using st rt by (simp add: build_step_text_open [OF None False] wf_state_def)
    qed
  next
    case (Some lvl)
    define stk where "stk = pop_stack (heap s) lvl (stack s)"
    have sub: "\<forall>a \<in> set stk. a < length (heap s)"
      using pop_stack_subset [of "heap s" lvl "stack s"] st unfolding stk_def by blast
    show ?thesis
    proof (cases "stk = []")
      case True
      have "wf_heap (heap s @ [\<lparr>n_level = lvl, n_title = snd b, n_text = [], n_children = []\<rparr>])"
        using wf by (rule wf_heap_leaf) simp
      then show ?thesis
        using rt True
        by (simp add: build_step_heading_top [OF Some] stk_def [symmetric] wf_state_def less_SucI)
    next
      case False
      then have p: "last stk < length (heap s)" using sub by simp
      have l: "n_level (heap s ! last stk) < lvl"
        using pop_stack_top [of "heap s" lvl "stack s"] False unfolding stk_def by simp
      have "wf_heap ((heap s)[last stk := (heap s ! last stk)
              \<lparr>n_children := n_children (heap s ! last stk) @ [length (heap s)]\<rparr>]
              @ [\<lparr>n_level = lvl, n_title = snd b, n_text = [], n_children = []\<rparr>])"
        using wf p l by (intro wf_heap_child) simp_all
      then show ?thesis
        using rt sub
        by (simp add: build_step_heading_nested [OF Some stk_def [symmetric] False]
              wf_state_def less_SucI)
    qed
  qed
qed

lemma foldl_build_step_wf: "wf_state s \<Longrightarrow> wf_state (foldl build_step s bs)"
  by (induction bs arbitrary: s) (simp_all add: build_step_wf)

lemma build_loop_wf: "wf_state (build_loop blocks)"
  unfolding build_loop_def
  by (rule foldl_build_step_wf) (simp add: wf_state_def wf_heap_def)

lemma level_to_section: "level (to_section h a) = n_level (h ! a)"
  by (subst to_section.simps) simp

lemma to_section_levels:
  "wf_heap h \<Longrightarrow> a < length h \<Longrightarrow> levels_increase (to_section h a)"
proof (induction h a rule: to_section.induct)
  case (1 h a)
  have "n_level (h ! a) < n_level (h ! c) \<and> levels_increase (to_section h c)"
    if "c \<in> set (filter (\<lambda>c. a < c \<and> c < length h) (n_children (h ! a)))" for c
  proof -
    from that have c: "c \<in> set (n_children (h ! a))" "a < c" "c < length h" by simp_all
    then have "n_level (h ! a) < n_level (h ! c)"
      using "1.prems" unfolding wf_heap_def by blast
    moreover have "levels_increase (to_section h c)"
      using "1.IH" [OF that "1.prems"(1) c(3)] .
    ultimately show ?thesis by simp
  qed
  then show ?case
    by (subst to_section.simps) (simp add: level_to_section)
qed

lemma to_section_children:
  assumes "wf_heap h" "a < length h"
  shows "children (to_section h a) = map (to_section h) (n_children (h ! a))"
proof -
  have "filter (\<lambda>c. a < c \<and> c < length h) (n_children (h ! a)) = n_children (h ! a)"
    using assms unfolding wf_heap_def by (intro filter_True) blast
  then show ?thesis
    by (subst to_section.simps) simp
qed

lemma foldl_build_step_text:
  assumes "\<forall>b \<in> set bs. level_map (fst b) = None" "stack s = []"
  shows "foldl build_step s bs =
           s\<lparr>heap := heap s @ map (\<lambda>b. overview (snd b)) bs,
             root := root s @ [length (heap s) ..< length (heap s) + length bs]\<rparr>"
  using assms
proof (induction bs arbitrary: s)
  case Nil
  then show ?case by simp
next
  case (Cons b bs)
  let ?s = "build_step s b"
  have b: "level_map (fst b) = None" using Cons.prems by simp
  have s': "?s = s\<lparr>heap := heap s @ [overview (snd b)], root := root s @ [length (heap s)]\<rparr>"
    using build_step_text_closed [OF b Cons.prems(2)] by (simp add: overview_def)
  have "foldl build_step ?s bs =
          ?s\<lparr>heap := heap ?s @ map (\<lambda>b. overview (snd b)) bs,
              root := root ?s @ [length (heap ?s) ..< length (heap ?s) + length bs]\<rparr>"
    using Cons.prems by (intro Cons.IH) (simp_all add: s')
  moreover have "[length (heap s) ..< length (heap s) + length (b # bs)] =
      length (heap s) # [Suc (length (heap s)) ..< Suc (length (heap s)) + length bs]"
    by (simp add: upt_conv_Cons del: upt_Suc)
  ultimately show ?case
    by (simp add: s' del: upt_Suc)
qed

lemma to_section_overview:
  assumes "h ! a = overview t"
  shows "to_section h a = Section 1 ''Overview'' t []"
  using assms by (subst to_section.simps) (simp add: overview_def)

subsection \<open>Sections without a heading\<close>

text \<open>
  C3 (as the code has it). For every block sequence without a heading block,
  build_sections returns one synthetic level-1 section titled "Overview" for each block,
  in order, with that block's text verbatim and no children: exactly one section when
  there is exactly one text block. A synthetic section is never put on the stack, so a
  later text block does not extend it.
\<close>

theorem build_sections_no_heading:
  assumes "\<forall>b \<in> set blocks. level_map (fst b) = None"
  shows "build_sections blocks = map (\<lambda>b. Section 1 ''Overview'' (snd b) []) blocks"
proof -
  have loop: "build_loop blocks =
      \<lparr>heap = map (\<lambda>b. overview (snd b)) blocks, root = [0 ..< length blocks], stack = []\<rparr>"
    unfolding build_loop_def
    by (subst foldl_build_step_text [OF assms]) simp_all
  show ?thesis
    unfolding build_sections_def Let_def loop
    by (rule nth_equalityI) (simp_all add: to_section_overview)
qed

theorem build_sections_no_heading_witness:
  "level_map ''p'' = None \<and>
   build_sections [(''p'', ''Some text'')] = [Section 1 ''Overview'' ''Some text'' []]"
proof -
  have p: "level_map ''p'' = None"
    by (simp add: level_map_def)
  then have h: "\<forall>b \<in> set [(''p'', ''Some text'')]. level_map (fst b) = None"
    by simp
  show ?thesis
    using p build_sections_no_heading [OF h] by simp
qed

text \<open>
  Two text blocks and no heading give two sections, not one.
\<close>

theorem build_sections_two_overviews:
  "build_sections [(''p'', ''a''), (''li'', ''b'')] =
     [Section 1 ''Overview'' ''a'' [], Section 1 ''Overview'' ''b'' []] \<and>
   length (build_sections [(''p'', ''a''), (''li'', ''b'')]) \<noteq> 1"
  by code_simp

subsection \<open>Nesting levels\<close>

text \<open>
  C5. In every forest that build_sections returns, every child of every section has a
  strictly greater level than the section: a new heading of level L is attached to the
  top of the stack only after every open section of level at least L has been popped.
\<close>

theorem build_sections_levels: "\<forall>s \<in> set (build_sections blocks). levels_increase s"
proof
  fix s assume "s \<in> set (build_sections blocks)"
  then obtain a where a: "a \<in> set (root (build_loop blocks))"
    and s: "s = to_section (heap (build_loop blocks)) a"
    by (auto simp: build_sections_def Let_def)
  from build_loop_wf [of blocks] a
  have "wf_heap (heap (build_loop blocks))" "a < length (heap (build_loop blocks))"
    by (simp_all add: wf_state_def)
  then show "levels_increase s"
    unfolding s by (rule to_section_levels)
qed

theorem build_sections_levels_witness:
  "levels_increase (Section 1 ''M1'' ''D'' [Section 2 ''S1'' ''SD'' []]) \<and>
   build_sections [(''h1'', ''M1''), (''p'', ''D''), (''h2'', ''S1''), (''p'', ''SD''), (''h1'', ''M2'')]
     = [Section 1 ''M1'' ''D'' [Section 2 ''S1'' ''SD'' []], Section 1 ''M2'' [] []]"
proof -
  have v: "build_sections [(''h1'', ''M1''), (''p'', ''D''), (''h2'', ''S1''), (''p'', ''SD''), (''h1'', ''M2'')]
     = [Section 1 ''M1'' ''D'' [Section 2 ''S1'' ''SD'' []], Section 1 ''M2'' [] []]"
    by code_simp
  show ?thesis
    using build_sections_levels [of "[(''h1'', ''M1''), (''p'', ''D''), (''h2'', ''S1''), (''p'', ''SD''), (''h1'', ''M2'')]"]
    unfolding v by simp
qed


subsection \<open>Summaries\<close>

lemma lstrip_Nil_iff: "lstrip s = [] \<longleftrightarrow> (\<forall>c \<in> set s. isspace c)"
  by (simp add: lstrip_def dropWhile_eq_Nil_conv)

lemma rstrip_Nil_iff: "rstrip s = [] \<longleftrightarrow> (\<forall>c \<in> set s. isspace c)"
  by (simp add: rstrip_def dropWhile_eq_Nil_conv)

lemma strip_Nil_iff: "strip s = [] \<longleftrightarrow> (\<forall>c \<in> set s. isspace c)"
proof
  assume "strip s = []"
  then have all: "\<forall>c \<in> set (lstrip s). isspace c"
    by (simp add: strip_def rstrip_Nil_iff)
  have "lstrip s = []"
  proof (rule ccontr)
    assume ne: "lstrip s \<noteq> []"
    then have "\<not> isspace (hd (lstrip s))"
      unfolding lstrip_def by (rule hd_dropWhile)
    moreover have "hd (lstrip s) \<in> set (lstrip s)"
      using ne by simp
    ultimately show False using all by blast
  qed
  then show "\<forall>c \<in> set s. isspace c"
    by (simp add: lstrip_Nil_iff)
next
  assume "\<forall>c \<in> set s. isspace c"
  then have "lstrip s = []" by (simp add: lstrip_Nil_iff)
  then show "strip s = []" by (simp add: strip_def rstrip_def)
qed

lemma length_strip_le: "length (strip s) \<le> length s"
proof -
  have "length (strip s) \<le> length (lstrip s)"
    unfolding strip_def rstrip_def
    using length_dropWhile_le [of isspace "rev (lstrip s)"] by simp
  also have "\<dots> \<le> length s"
    unfolding lstrip_def by (rule length_dropWhile_le)
  finally show ?thesis .
qed

text \<open>
  C7 (as the code has it). summarize_text returns the empty string for every empty or
  whitespace-only input. For every text with a character that is not whitespace, in which
  no sentence fragment survives the filter of at least three words, it returns the first
  200 characters of the text with leading and trailing whitespace stripped, followed by
  "..." exactly when the text is longer than 200 characters; this result has at most 203
  characters.
\<close>

theorem summarize_text_fallback:
  "(txt = [] \<or> (\<forall>c \<in> set txt. isspace c) \<longrightarrow> summarize_text txt k = []) \<and>
   ((\<exists>c \<in> set txt. \<not> isspace c) \<and>
    filter (\<lambda>s. 3 \<le> length (split_ws s)) (split_sentences (strip txt)) = [] \<longrightarrow>
      summarize_text txt k = strip (take 200 txt) @ (if 200 < length txt then ''...'' else []) \<and>
      length (summarize_text txt k) \<le> 203)"
proof (intro conjI impI)
  assume "txt = [] \<or> (\<forall>c \<in> set txt. isspace c)"
  then have "txt = [] \<or> strip txt = []"
    by (simp add: strip_Nil_iff)
  then show "summarize_text txt k = []"
    by (simp add: summarize_text_def)
next
  assume a: "(\<exists>c \<in> set txt. \<not> isspace c) \<and>
    filter (\<lambda>s. 3 \<le> length (split_ws s)) (split_sentences (strip txt)) = []"
  then have ne: "txt \<noteq> []" "strip txt \<noteq> []"
    by (auto simp: strip_Nil_iff)
  show r: "summarize_text txt k =
      strip (take 200 txt) @ (if 200 < length txt then ''...'' else [])"
    using ne a by (simp add: summarize_text_def Let_def)
  define p where "p = strip (take 200 txt)"
  have "length p \<le> 200"
    unfolding p_def using length_strip_le [of "take 200 txt"] by simp
  then have "length (p @ (if 200 < length txt then ''...'' else [])) \<le> 203"
    by simp
  then show "length (summarize_text txt k) \<le> 203"
    unfolding r p_def .
qed

theorem summarize_text_fallback_witness:
  "summarize_text [] 2 = [] \<and> summarize_text ''   '' 2 = [] \<and>
   summarize_text ''Hi there. '' 2 = ''Hi there.''"
proof -
  have 1: "\<forall>c \<in> set ''   ''. isspace c" by (simp add: isspace_def)
  have 2: "\<exists>c \<in> set ''Hi there. ''. \<not> isspace c" by (simp add: isspace_def)
  have 3: "filter (\<lambda>s. 3 \<le> length (split_ws s)) (split_sentences (strip ''Hi there. '')) = []"
    by code_simp
  have 4: "strip (take 200 ''Hi there. '') = ''Hi there.''" by code_simp
  show ?thesis
    using summarize_text_fallback [of "[]" 2] summarize_text_fallback [of "''   ''" 2]
      summarize_text_fallback [of "''Hi there. ''" 2] 1 2 3 4
    by simp
qed

text \<open>
  The fallback is not the plain prefix: the text "Hi there. " has no sentence of three
  words, and the result lacks its trailing space.
\<close>

theorem summarize_text_strips_prefix:
  "filter (\<lambda>s. 3 \<le> length (split_ws s)) (split_sentences (strip ''Hi there. '')) = [] \<and>
   summarize_text ''Hi there. '' 2 = ''Hi there.'' \<and>
   summarize_text ''Hi there. '' 2 \<noteq> take 200 ''Hi there. ''"
  by code_simp

subsection \<open>Dictionaries, title merging and the loops of infer_modules\<close>

lemma map_of_dd_update:
  "map_of (dd_update d f k kvs) = (map_of kvs)(k \<mapsto> f (dd_get d k kvs))"
  by (induction kvs) (auto simp: dd_get_def fun_eq_iff)

lemma dd_get_dd_update:
  "dd_get d k' (dd_update d f k kvs) = (if k' = k then f (dd_get d k kvs) else dd_get d k' kvs)"
proof -
  have "dd_get d k' (dd_update d f k kvs) =
      (case ((map_of kvs)(k \<mapsto> f (dd_get d k kvs))) k' of None \<Rightarrow> d | Some v \<Rightarrow> v)"
    unfolding dd_get_def [of d k' "dd_update d f k kvs"] map_of_dd_update ..
  also have "\<dots> = (if k' = k then f (dd_get d k kvs) else dd_get d k' kvs)"
    by (simp add: dd_get_def [of d k'])
  finally show ?thesis .
qed

lemma keys_dd_update:
  "map fst (dd_update d f k kvs) = (if k \<in> fst ` set kvs then map fst kvs else map fst kvs @ [k])"
proof (induction kvs)
  case Nil
  then show ?case by simp
next
  case (Cons kv kvs)
  obtain k' v where kv: "kv = (k', v)" by (cases kv)
  show ?case
  proof (cases "k = k'")
    case True
    then show ?thesis by (simp add: kv)
  next
    case False
    then show ?thesis using Cons.IH by (simp add: kv)
  qed
qed

lemma set_keys_dd_update: "fst ` set (dd_update d f k kvs) = insert k (fst ` set kvs)"
proof -
  have "set (map fst (dd_update d f k kvs)) = insert k (set (map fst kvs))"
    unfolding keys_dd_update by auto
  then show ?thesis by simp
qed

lemma distinct_dd_update:
  "distinct (map fst kvs) \<Longrightarrow> distinct (map fst (dd_update d f k kvs))"
  by (simp add: keys_dd_update)

lemma dd_get_entry:
  "distinct (map fst kvs) \<Longrightarrow> (k, v) \<in> set kvs \<Longrightarrow> dd_get d k kvs = v"
  by (simp add: dd_get_def)

lemma dd_get_missing: "k \<notin> fst ` set kvs \<Longrightarrow> dd_get d k kvs = d"
proof -
  assume "k \<notin> fst ` set kvs"
  then have "map_of kvs k = None" by (simp add: map_of_eq_None_iff)
  then show ?thesis by (simp add: dd_get_def)
qed

lemma dd_update_not_Nil: "dd_update d f k kvs \<noteq> []"
  by (cases kvs) (auto split: if_splits)

lemma foldl_groups_ok:
  assumes "groups_ok S g"
  shows "groups_ok (S \<union> set secs)
           (foldl (\<lambda>grouped sec.
                     if \<not> is_valid_module_title (title sec) then grouped
                     else dd_update [] (\<lambda>l. l @ [sec]) (title sec) grouped) g secs)"
  using assms
proof (induction secs arbitrary: g S)
  case Nil
  then show ?case by simp
next
  case (Cons x xs)
  let ?g = "if \<not> is_valid_module_title (title x) then g
            else dd_update [] (\<lambda>l. l @ [x]) (title x) g"
  have "groups_ok (insert x S) ?g"
    using Cons.prems unfolding groups_ok_def
    by (auto simp: distinct_dd_update dd_get_dd_update)
  then have "groups_ok (insert x S \<union> set xs) (foldl (\<lambda>grouped sec.
                     if \<not> is_valid_module_title (title sec) then grouped
                     else dd_update [] (\<lambda>l. l @ [sec]) (title sec) grouped) ?g xs)"
    by (rule Cons.IH)
  then show ?case by simp
qed

lemma infer_from_sections_ok: "groups_ok (set secs) (infer_from_sections secs url)"
proof -
  have "groups_ok {} []" by (simp add: groups_ok_def dd_get_def)
  from foldl_groups_ok [OF this, of secs] show ?thesis
    by (simp add: infer_from_sections_def)
qed

lemma groups_members:
  assumes "groups_ok S gs"
  shows "(\<exists>g \<in> set gs. fst g = t \<and> s \<in> set (snd g)) \<longleftrightarrow>
         (s \<in> S \<and> is_valid_module_title (title s) \<and> title s = t)"
proof
  assume "\<exists>g \<in> set gs. fst g = t \<and> s \<in> set (snd g)"
  then obtain v where g: "(t, v) \<in> set gs" and s: "s \<in> set v"
    by (metis prod.collapse)
  have "dd_get [] t gs = v"
    using assms g by (intro dd_get_entry) (simp_all add: groups_ok_def)
  with s have "s \<in> set (dd_get [] t gs)" by simp
  also have "\<dots> = {s \<in> S. is_valid_module_title (title s) \<and> title s = t}"
    using assms unfolding groups_ok_def by blast
  finally show "s \<in> S \<and> is_valid_module_title (title s) \<and> title s = t"
    by blast
next
  assume "s \<in> S \<and> is_valid_module_title (title s) \<and> title s = t"
  then have "s \<in> {s \<in> S. is_valid_module_title (title s) \<and> title s = t}"
    by blast
  also have "\<dots> = set (dd_get [] t gs)"
    using assms unfolding groups_ok_def by blast
  finally have s: "s \<in> set (dd_get [] t gs)" .
  then obtain v where v: "map_of gs t = Some v"
    by (cases "map_of gs t") (simp_all add: dd_get_def)
  then have "(t, v) \<in> set gs" by (rule map_of_SomeD)
  moreover have "s \<in> set v" using s v by (simp add: dd_get_def)
  ultimately show "\<exists>g \<in> set gs. fst g = t \<and> s \<in> set (snd g)"
    by force
qed

lemma dd_update_values:
  assumes "\<forall>e \<in> set kvs. P (snd e)" "P (f d)" "\<And>v. P v \<Longrightarrow> P (f v)"
  shows "\<forall>e \<in> set (dd_update d f k kvs). P (snd e)"
  using assms(1)
proof (induction kvs)
  case Nil
  then show ?case using assms(2) by simp
next
  case (Cons kv kvs)
  obtain k' v where kv: "kv = (k', v)" by (cases kv)
  show ?case
    using Cons assms(3) by (auto simp: kv)
qed

lemma add_group_stored_ok: "stored_ok st \<Longrightarrow> stored_ok (add_group url st g)"
proof -
  assume st: "stored_ok st"
  let ?v = "filter (\<lambda>s. level s \<le> 2) (snd g)"
  show ?thesis
  proof (cases "?v = []")
    case True
    then show ?thesis using st by (simp add: add_group_def)
  next
    case False
    have "\<forall>e \<in> set (dd_update [] (\<lambda>l. l @ ?v) (fst g) (fst st)). snd e \<noteq> []"
      using st False by (intro dd_update_values) (simp_all add: stored_ok_def)
    then show ?thesis
      using st False by (simp add: add_group_def stored_ok_def distinct_dd_update)
  qed
qed

lemma add_group_sections:
  "dd_get [] t (fst (add_group url st g)) =
     dd_get [] t (fst st) @ (if t = fst g then filter (\<lambda>s. level s \<le> 2) (snd g) else [])"
  by (simp add: add_group_def Let_def dd_get_dd_update)

lemma set_add_set: "set (set_add x xs) = insert x (set xs)"
  by (auto simp: set_add_def)

lemma add_group_sources:
  "set (dd_get [] t (snd (add_group url st g))) =
     set (dd_get [] t (snd st)) \<union>
     {u. u = url \<and> t = fst g \<and> (\<exists>s \<in> set (snd g). level s \<le> 2)}"
  by (auto simp: add_group_def Let_def dd_get_dd_update set_add_set filter_empty_conv)

lemma foldl_add_group_stored_ok:
  "stored_ok st \<Longrightarrow> stored_ok (foldl (add_group url) st gs)"
  by (induction gs arbitrary: st) (simp_all add: add_group_stored_ok)

lemma foldl_add_group_sections:
  "set (dd_get [] t (fst (foldl (add_group url) st gs))) =
     set (dd_get [] t (fst st)) \<union>
     {s. \<exists>g \<in> set gs. fst g = t \<and> s \<in> set (snd g) \<and> level s \<le> 2}"
proof (induction gs arbitrary: st)
  case Nil
  then show ?case by simp
next
  case (Cons g gs)
  show ?case
    by (simp add: Cons.IH add_group_sections) auto
qed

lemma foldl_add_group_sources:
  "set (dd_get [] t (snd (foldl (add_group url) st gs))) =
     set (dd_get [] t (snd st)) \<union>
     {u. u = url \<and> (\<exists>g \<in> set gs. fst g = t \<and> (\<exists>s \<in> set (snd g). level s \<le> 2))}"
proof (induction gs arbitrary: st)
  case Nil
  then show ?case by simp
next
  case (Cons g gs)
  show ?case
    by (simp add: Cons.IH add_group_sources) auto
qed

lemma add_page_stored_ok: "stored_ok st \<Longrightarrow> stored_ok (add_page blocks_of st p)"
  by (cases "extract_sections blocks_of (snd p)")
     (simp_all add: add_page_def foldl_add_group_stored_ok)

lemma add_page_sections:
  "set (dd_get [] t (fst (add_page blocks_of st p))) =
     set (dd_get [] t (fst st)) \<union> {s \<in> set (page_candidates blocks_of (snd p)). title s = t}"
proof (cases "extract_sections blocks_of (snd p)")
  case (Inl e)
  then show ?thesis by (simp add: add_page_def page_candidates_def)
next
  case (Inr secs)
  have "{s. \<exists>g \<in> set (infer_from_sections secs (fst p)).
              fst g = t \<and> s \<in> set (snd g) \<and> level s \<le> 2} =
        {s \<in> set secs. (is_valid_module_title (title s) \<and> level s \<le> 2) \<and> title s = t}"
    using groups_members [OF infer_from_sections_ok, of secs "fst p" t] by blast
  then show ?thesis
    using Inr by (simp add: add_page_def page_candidates_def foldl_add_group_sections)
qed

lemma add_page_sources:
  "set (dd_get [] t (snd (add_page blocks_of st p))) =
     set (dd_get [] t (snd st)) \<union>
     {u. u = fst p \<and> (\<exists>s \<in> set (page_candidates blocks_of (snd p)). title s = t)}"
proof (cases "extract_sections blocks_of (snd p)")
  case (Inl e)
  then show ?thesis by (simp add: add_page_def page_candidates_def)
next
  case (Inr secs)
  have "(\<exists>g \<in> set (infer_from_sections secs (fst p)).
            fst g = t \<and> (\<exists>s \<in> set (snd g). level s \<le> 2)) \<longleftrightarrow>
        (\<exists>s \<in> set secs. (is_valid_module_title (title s) \<and> level s \<le> 2) \<and> title s = t)"
    using groups_members [OF infer_from_sections_ok, of secs "fst p" t] by blast
  then show ?thesis
    using Inr by (simp add: add_page_def page_candidates_def foldl_add_group_sources) blast
qed

lemma foldl_add_page_stored_ok:
  "stored_ok st \<Longrightarrow> stored_ok (foldl (add_page blocks_of) st pages)"
  by (induction pages arbitrary: st) (simp_all add: add_page_stored_ok)

lemma foldl_add_page_sections:
  "set (dd_get [] t (fst (foldl (add_page blocks_of) st pages))) =
     set (dd_get [] t (fst st)) \<union>
     {s. \<exists>p \<in> set pages. s \<in> set (page_candidates blocks_of (snd p)) \<and> title s = t}"
proof (induction pages arbitrary: st)
  case Nil
  then show ?case by simp
next
  case (Cons p pages)
  show ?case
    by (simp add: Cons.IH add_page_sections) blast
qed

lemma foldl_add_page_sources:
  "set (dd_get [] t (snd (foldl (add_page blocks_of) st pages))) =
     set (dd_get [] t (snd st)) \<union>
     {u. \<exists>p \<in> set pages. fst p = u \<and>
           (\<exists>s \<in> set (page_candidates blocks_of (snd p)). title s = t)}"
proof (induction pages arbitrary: st)
  case Nil
  then show ?case by simp
next
  case (Cons p pages)
  show ?case
    by (simp add: Cons.IH add_page_sources) blast
qed

lemma set_set_update: "set (set_update xs ys) = set xs \<union> set ys"
  unfolding set_update_def
  by (induction ys arbitrary: xs) (auto simp: set_add_set)

lemma reorganized_Nil: "reorganized tm ss [] acc acc"
  by (simp add: reorganized_def)

lemma reorganized_Cons:
  assumes canon: "tm orig = Some canon"
    and r: "reorganized tm ss ms
          (dd_update [] (\<lambda>l. l @ secs) canon (fst acc),
           dd_update [] (\<lambda>u. set_update u (dd_get [] orig ss)) canon (snd acc)) res"
  shows "reorganized tm ss ((orig, secs) # ms) acc res"
proof -
  let ?a1 = "dd_update [] (\<lambda>l. l @ secs) canon (fst acc)"
  let ?a2 = "dd_update [] (\<lambda>u. set_update u (dd_get [] orig ss)) canon (snd acc)"
  from r have d: "distinct (map fst ?a1) \<longrightarrow> distinct (map fst (fst res))"
    and k: "fst ` set (fst res) = fst ` set ?a1 \<union> {c. \<exists>e \<in> set ms. tm (fst e) = Some c}"
    and g: "\<And>c. dd_get [] c (fst res) =
              dd_get [] c ?a1 @ concat (map snd (filter (\<lambda>e. tm (fst e) = Some c) ms))"
    and u: "\<And>c. set (dd_get [] c (snd res)) =
              set (dd_get [] c ?a2) \<union>
              (\<Union>e \<in> {e \<in> set ms. tm (fst e) = Some c}. set (dd_get [] (fst e) ss))"
    by (simp_all add: reorganized_def)
  have d': "distinct (map fst (fst acc)) \<longrightarrow> distinct (map fst (fst res))"
    using d by (simp add: distinct_dd_update)
  have "{c. \<exists>e \<in> set ((orig, secs) # ms). tm (fst e) = Some c} =
        insert canon {c. \<exists>e \<in> set ms. tm (fst e) = Some c}"
    using canon by auto
  then have k': "fst ` set (fst res) =
      fst ` set (fst acc) \<union> {c. \<exists>e \<in> set ((orig, secs) # ms). tm (fst e) = Some c}"
    unfolding k set_keys_dd_update by blast
  have g': "dd_get [] c (fst res) =
      dd_get [] c (fst acc) @
      concat (map snd (filter (\<lambda>e. tm (fst e) = Some c) ((orig, secs) # ms)))" for c
    unfolding g using canon by (simp add: dd_get_dd_update)
  have u': "set (dd_get [] c (snd res)) =
      set (dd_get [] c (snd acc)) \<union>
      (\<Union>e \<in> {e \<in> set ((orig, secs) # ms). tm (fst e) = Some c}. set (dd_get [] (fst e) ss))" for c
  proof (cases "c = canon")
    case True
    then have "{e \<in> set ((orig, secs) # ms). tm (fst e) = Some c} =
               insert (orig, secs) {e \<in> set ms. tm (fst e) = Some c}"
      using canon by auto
    then show ?thesis
      unfolding u using True by (simp add: dd_get_dd_update set_set_update Un_assoc)
  next
    case False
    then have "{e \<in> set ((orig, secs) # ms). tm (fst e) = Some c} =
               {e \<in> set ms. tm (fst e) = Some c}"
      using canon by auto
    then show ?thesis
      unfolding u using False by (simp add: dd_get_dd_update)
  qed
  show ?thesis
    unfolding reorganized_def using d' k' g' u' by (intro conjI allI) 
qed

lemma reorganize_result:
  assumes "\<forall>e \<in> set ms. tm (fst e) \<noteq> None"
  shows "\<exists>res. reorganize tm ss ms acc = Inr res \<and> reorganized tm ss ms acc res"
  using assms
proof (induction ms arbitrary: acc)
  case Nil
  show ?case by (simp add: reorganized_Nil)
next
  case (Cons e ms)
  obtain orig secs where e: "e = (orig, secs)" by (cases e)
  from Cons.prems obtain canon where canon: "tm orig = Some canon"
    by (auto simp: e)
  let ?acc = "(dd_update [] (\<lambda>l. l @ secs) canon (fst acc),
     dd_update [] (\<lambda>u. set_update u (dd_get [] orig ss)) canon (snd acc))"
  from Cons.prems have "\<forall>e \<in> set ms. tm (fst e) \<noteq> None" by simp
  from Cons.IH [OF this, of ?acc] obtain res where
    r: "reorganize tm ss ms ?acc = Inr res" and ok: "reorganized tm ss ms ?acc res"
    by blast
  have "reorganize tm ss (e # ms) acc = Inr res"
    using r by (simp add: e canon)
  moreover have "reorganized tm ss (e # ms) acc res"
    unfolding e using canon ok by (rule reorganized_Cons)
  ultimately show ?case by blast
qed

lemma first_by_title_snoc:
  "first_by_title (cs @ [c]) =
     first_by_title cs @ (if title c \<in> title ` set cs then [] else [c])"
proof -
  have "map (\<lambda>i. (cs @ [c]) ! i)
          (filter (\<lambda>i. title ((cs @ [c]) ! i) \<notin> title ` set (take i (cs @ [c]))) [0 ..< length cs]) =
        map (\<lambda>i. cs ! i) (filter (\<lambda>i. title (cs ! i) \<notin> title ` set (take i cs)) [0 ..< length cs])"
  proof -
    have f: "filter (\<lambda>i. title ((cs @ [c]) ! i) \<notin> title ` set (take i (cs @ [c]))) [0 ..< length cs] =
          filter (\<lambda>i. title (cs ! i) \<notin> title ` set (take i cs)) [0 ..< length cs]"
      by (rule filter_cong) (simp_all add: nth_append)
    show ?thesis
      unfolding f by (rule map_cong) (simp_all add: nth_append)
  qed
  then show ?thesis
    by (simp add: first_by_title_def nth_append)
qed

lemma first_by_title_Nil: "first_by_title [] = []"
  by (simp add: first_by_title_def)

lemma titles_first_by_title: "title ` set (first_by_title cs) = title ` set cs"
  by (induction cs rule: rev_induct) (auto simp: first_by_title_Nil first_by_title_snoc)

lemma map_of_entries_None:
  "map_of (map (\<lambda>c. (title c, f c)) cs) t = None \<longleftrightarrow> t \<notin> title ` set cs"
  by (simp add: map_of_eq_None_iff image_image)

lemma foldl_add_submodule:
  "foldl (add_submodule urls) [] cs =
     map (\<lambda>c. (title c, make_submodule urls c)) (first_by_title (filter submodule_candidate cs))"
proof (induction cs rule: rev_induct)
  case Nil
  then show ?case by (simp add: first_by_title_Nil)
next
  case (snoc c cs)
  let ?X = "first_by_title (filter submodule_candidate cs)"
  show ?case
  proof (cases "submodule_candidate c")
    case False
    then have "add_submodule urls (foldl (add_submodule urls) [] cs) c = foldl (add_submodule urls) [] cs"
      by (simp add: add_submodule_def submodule_candidate_def)
    with False snoc show ?thesis by simp
  next
    case True
    have none: "map_of (map (\<lambda>c. (title c, make_submodule urls c)) ?X) (title c) = None \<longleftrightarrow>
        title c \<notin> title ` set (filter submodule_candidate cs)"
      unfolding map_of_entries_None titles_first_by_title ..
    have "add_submodule urls (map (\<lambda>c. (title c, make_submodule urls c)) ?X) c =
        map (\<lambda>c. (title c, make_submodule urls c))
          (?X @ (if title c \<in> title ` set (filter submodule_candidate cs) then [] else [c]))"
      using True none by (simp add: add_submodule_def submodule_candidate_def)
    then show ?thesis
      using True snoc by (simp add: first_by_title_snoc)
  qed
qed

lemma foldl_children:
  "foldl (\<lambda>acc sec. foldl f acc (children sec)) acc secs = foldl f acc (concat (map children secs))"
  by (induction secs arbitrary: acc) simp_all

lemma collect_submodules_eq:
  "collect_submodules urls secs =
     map (\<lambda>c. (title c, make_submodule urls c))
       (first_by_title (filter submodule_candidate (concat (map children secs))))"
  unfolding collect_submodules_def foldl_children foldl_add_submodule ..

lemma foldl_dedupe:
  "set (snd (foldl (\<lambda>(seen, result) item.
                   if item \<in> seen then (seen, result) else (insert item seen, result @ [item]))
            (set result, result) items)) = set result \<union> set items"
proof (induction items arbitrary: result)
  case Nil
  then show ?case by simp
next
  case (Cons a items)
  show ?case
  proof (cases "a \<in> set result")
    case True
    then show ?thesis using Cons.IH [of result] by auto
  next
    case False
    have "insert a (set result) = set (result @ [a])" by simp
    then show ?thesis using False Cons.IH [of "result @ [a]"] by auto
  qed
qed

lemma set_dedupe_preserve_order: "set (dedupe_preserve_order items) = set items"
  unfolding dedupe_preserve_order_def
  using foldl_dedupe [of "[]" items] by simp

lemma add_module_eq:
  "add_module msrc mods e = mods @ (if snd e = [] then [] else [make_module msrc e])"
  by (cases "snd e") (simp_all add: add_module_def make_module_def Let_def)

lemma foldl_add_module:
  "foldl (add_module msrc) mods mm =
     mods @ map (make_module msrc) (filter (\<lambda>e. snd e \<noteq> []) mm)"
  by (induction mm arbitrary: mods) (simp_all add: add_module_eq)

lemma closed_on_update:
  assumes "closed_on T c" "k \<in> T" "v \<in> T"
  shows "closed_on T (c(k \<mapsto> v))"
  using assms unfolding closed_on_def by auto

lemma merge_inner_closed:
  assumes "closed_on T c" "t1 \<in> T" "set ts \<subseteq> T"
  shows "closed_on T (merge_inner r th t1 ts c)"
  using assms
proof (induction ts arbitrary: c)
  case Nil
  then show ?case by simp
next
  case (Cons t2 ts)
  let ?c = "if length t1 \<le> length t2 then t1 else t2"
  have "?c \<in> T" using Cons.prems by simp
  then have "closed_on T (c(t1 \<mapsto> ?c, t2 \<mapsto> ?c))"
    using Cons.prems by (intro closed_on_update) simp_all
  then show ?case
    using Cons by (simp add: Let_def)
qed

lemma merge_outer_closed:
  assumes "closed_on T c" "set ts \<subseteq> T"
  shows "closed_on T (merge_outer r th ts c)"
  using assms
proof (induction ts arbitrary: c)
  case Nil
  then show ?case by simp
next
  case (Cons t1 ts)
  then show ?case
    by (simp add: merge_inner_closed)
qed

lemma foldl_identity_map:
  "foldl (\<lambda>c t. c(t \<mapsto> t)) m ts k = (if k \<in> set ts then Some k else m k)"
  by (induction ts arbitrary: m) auto

lemma closed_on_init: "closed_on (set ts) (foldl (\<lambda>c t. c(t \<mapsto> t)) Map.empty ts)"
  unfolding closed_on_def
  by (auto simp: foldl_identity_map dom_def split: if_splits)

lemma merge_similar_titles_closed:
  "closed_on (set titles) (merge_similar_titles r titles th)"
  unfolding merge_similar_titles_def
  by (intro merge_outer_closed closed_on_init) simp

lemma stored_ok_pages: "stored_ok (foldl (add_page blocks_of) ([], []) pages)"
  by (rule foldl_add_page_stored_ok) (simp add: stored_ok_def)

lemma module_sections_distinct: "distinct (map fst (module_sections_of blocks_of pages))"
  using stored_ok_pages [of blocks_of pages] by (simp add: stored_ok_def module_sections_of_def)

lemma module_sections_entry:
  assumes "e \<in> set (module_sections_of blocks_of pages)"
  shows "snd e \<noteq> []"
    and "set (snd e) =
          {s. \<exists>p \<in> set pages. s \<in> set (page_candidates blocks_of (snd p)) \<and> title s = fst e}"
proof -
  show "snd e \<noteq> []"
    using stored_ok_pages [of blocks_of pages] assms
    by (simp add: stored_ok_def module_sections_of_def)
  have "(fst e, snd e) \<in> set (module_sections_of blocks_of pages)"
    using assms by simp
  then have "dd_get [] (fst e) (module_sections_of blocks_of pages) = snd e"
    using module_sections_distinct by (rule dd_get_entry [rotated])
  then show "set (snd e) =
          {s. \<exists>p \<in> set pages. s \<in> set (page_candidates blocks_of (snd p)) \<and> title s = fst e}"
    using foldl_add_page_sections [of "fst e" blocks_of "([], [])" pages]
    by (simp add: module_sections_of_def dd_get_def)
qed

lemma module_sections_key:
  assumes "p \<in> set pages" "s \<in> set (page_candidates blocks_of (snd p))"
  shows "\<exists>e \<in> set (module_sections_of blocks_of pages). fst e = title s \<and> s \<in> set (snd e)"
proof -
  have "s \<in> set (dd_get [] (title s) (module_sections_of blocks_of pages))"
    using foldl_add_page_sections [of "title s" blocks_of "([], [])" pages] assms
    by (auto simp: module_sections_of_def)
  then obtain v where v: "map_of (module_sections_of blocks_of pages) (title s) = Some v"
    and s: "s \<in> set v"
    by (cases "map_of (module_sections_of blocks_of pages) (title s)") (simp_all add: dd_get_def)
  from v have "(title s, v) \<in> set (module_sections_of blocks_of pages)"
    by (rule map_of_SomeD)
  with s show ?thesis by force
qed

lemma section_sources_set:
  "set (dd_get [] t (snd (foldl (add_page blocks_of) ([], []) pages))) =
     {u. \<exists>p \<in> set pages. fst p = u \<and>
           (\<exists>s \<in> set (page_candidates blocks_of (snd p)). title s = t)}"
  using foldl_add_page_sources [of t blocks_of "([], [])" pages]
  by (simp add: dd_get_def)

lemma title_mapping_closed:
  "closed_on (fst ` set (module_sections_of blocks_of pages)) (title_mapping_of blocks_of ratio pages)"
  using merge_similar_titles_closed [of "map fst (module_sections_of blocks_of pages)" ratio "0.8"]
  by (simp add: title_mapping_of_def)

lemma title_mapping_total:
  "\<forall>e \<in> set (module_sections_of blocks_of pages). title_mapping_of blocks_of ratio pages (fst e) \<noteq> None"
  using title_mapping_closed [of blocks_of pages ratio]
  unfolding closed_on_def by (metis domIff imageI)

lemma infer_modules_eq:
  "\<exists>res. reorganized (title_mapping_of blocks_of ratio pages)
            (snd (foldl (add_page blocks_of) ([], []) pages))
            (module_sections_of blocks_of pages) ([], []) res \<and>
         infer_modules blocks_of ratio pages =
           Inr (sort_key (\<lambda>m. - confidence m)
                  (map (make_module (snd res)) (filter (\<lambda>e. snd e \<noteq> []) (fst res))))"
proof -
  let ?st = "foldl (add_page blocks_of) ([], []) pages"
  let ?ms = "module_sections_of blocks_of pages"
  let ?tm = "title_mapping_of blocks_of ratio pages"
  have tot: "\<forall>e \<in> set ?ms. ?tm (fst e) \<noteq> None"
    by (rule title_mapping_total)
  from reorganize_result [OF tot, where ss = "snd ?st" and acc = "([], [])"]
  obtain res where r: "reorganize ?tm (snd ?st) ?ms ([], []) = Inr res"
    and ok: "reorganized ?tm (snd ?st) ?ms ([], []) res"
    by blast
  have empty: "fst res = []" if "?ms = []"
  proof -
    from ok that have "fst ` set (fst res) = {}"
      by (simp add: reorganized_def)
    then show ?thesis by simp
  qed
  have "infer_modules blocks_of ratio pages =
      Inr (sort_key (\<lambda>m. - confidence m)
             (map (make_module (snd res)) (filter (\<lambda>e. snd e \<noteq> []) (fst res))))"
  proof (cases "pages = [] \<or> ?ms = []")
    case True
    then have ms: "?ms = []" by (auto simp: module_sections_of_def)
    then have "infer_modules blocks_of ratio pages = Inr []"
      by (simp add: infer_modules_def Let_def module_sections_of_def)
    then show ?thesis using empty [OF ms] by simp
  next
    case False
    then show ?thesis
      using r [unfolded title_mapping_of_def]
      by (simp add: infer_modules_def Let_def module_sections_of_def [symmetric]
            foldl_add_module)
  qed
  with ok show ?thesis by blast
qed

lemma contributing_sections_set:
  "set (contributing_sections blocks_of ratio pages c) =
     {s. \<exists>p \<in> set pages. s \<in> set (page_candidates blocks_of (snd p)) \<and>
           title_mapping_of blocks_of ratio pages (title s) = Some c}"
proof (intro set_eqI iffI)
  fix s assume "s \<in> set (contributing_sections blocks_of ratio pages c)"
  then obtain e where e: "e \<in> set (module_sections_of blocks_of pages)"
    and tm: "title_mapping_of blocks_of ratio pages (fst e) = Some c" and s: "s \<in> set (snd e)"
    by (auto simp: contributing_sections_def)
  from s module_sections_entry(2) [OF e]
  obtain p where "p \<in> set pages" "s \<in> set (page_candidates blocks_of (snd p))" "title s = fst e"
    by blast
  with tm show "s \<in> {s. \<exists>p \<in> set pages. s \<in> set (page_candidates blocks_of (snd p)) \<and>
           title_mapping_of blocks_of ratio pages (title s) = Some c}"
    by force
next
  fix s assume "s \<in> {s. \<exists>p \<in> set pages. s \<in> set (page_candidates blocks_of (snd p)) \<and>
           title_mapping_of blocks_of ratio pages (title s) = Some c}"
  then obtain p where p: "p \<in> set pages" "s \<in> set (page_candidates blocks_of (snd p))"
    and tm: "title_mapping_of blocks_of ratio pages (title s) = Some c"
    by blast
  from module_sections_key [OF p] obtain e where
    "e \<in> set (module_sections_of blocks_of pages)" "fst e = title s" "s \<in> set (snd e)"
    by blast
  with tm have "e \<in> set (filter (\<lambda>e. title_mapping_of blocks_of ratio pages (fst e) = Some c)
                        (module_sections_of blocks_of pages))" "s \<in> set (snd e)"
    by simp_all
  then show "s \<in> set (contributing_sections blocks_of ratio pages c)"
    unfolding contributing_sections_def set_concat set_map by blast
qed

lemma merged_sources_set:
  assumes "reorganized (title_mapping_of blocks_of ratio pages)
            (snd (foldl (add_page blocks_of) ([], []) pages))
            (module_sections_of blocks_of pages) ([], []) res"
  shows "set (dd_get [] c (snd res)) =
     {u. \<exists>p \<in> set pages. fst p = u \<and>
           (\<exists>s \<in> set (page_candidates blocks_of (snd p)).
              title_mapping_of blocks_of ratio pages (title s) = Some c)}"
proof -
  let ?ms = "module_sections_of blocks_of pages"
  let ?tm = "title_mapping_of blocks_of ratio pages"
  let ?ss = "snd (foldl (add_page blocks_of) ([], []) pages)"
  have u: "set (dd_get [] c (snd res)) =
      (\<Union>e \<in> {e \<in> set ?ms. ?tm (fst e) = Some c}. set (dd_get [] (fst e) ?ss))"
    using assms by (simp add: reorganized_def dd_get_def)
  show ?thesis
  proof (intro set_eqI iffI)
    fix x assume "x \<in> set (dd_get [] c (snd res))"
    then obtain e where e: "e \<in> set ?ms" "?tm (fst e) = Some c"
      and x: "x \<in> set (dd_get [] (fst e) ?ss)"
      unfolding u by blast
    from x obtain p s where "p \<in> set pages" "fst p = x"
      "s \<in> set (page_candidates blocks_of (snd p))" "title s = fst e"
      unfolding section_sources_set by blast
    with e(2) show "x \<in> {u. \<exists>p \<in> set pages. fst p = u \<and>
           (\<exists>s \<in> set (page_candidates blocks_of (snd p)). ?tm (title s) = Some c)}"
      by force
  next
    fix x assume "x \<in> {u. \<exists>p \<in> set pages. fst p = u \<and>
           (\<exists>s \<in> set (page_candidates blocks_of (snd p)). ?tm (title s) = Some c)}"
    then obtain p s where p: "p \<in> set pages" "s \<in> set (page_candidates blocks_of (snd p))"
      and x: "fst p = x" and tm: "?tm (title s) = Some c"
      by blast
    from module_sections_key [OF p] obtain e where
      e: "e \<in> set ?ms" "fst e = title s"
      by blast
    have "x \<in> set (dd_get [] (fst e) ?ss)"
      unfolding section_sources_set using p x e(2) by force
    moreover have "e \<in> {e \<in> set ?ms. ?tm (fst e) = Some c}"
      using e tm by simp
    ultimately show "x \<in> set (dd_get [] c (snd res))"
      unfolding u by blast
  qed
qed

lemma infer_modules_member:
  assumes "infer_modules blocks_of ratio pages = Inr ms" "m \<in> set ms"
  shows "\<exists>urls.
           m = make_module [(name m, urls)]
                 (name m, contributing_sections blocks_of ratio pages (name m)) \<and>
           contributing_sections blocks_of ratio pages (name m) \<noteq> [] \<and>
           (\<exists>e \<in> set (module_sections_of blocks_of pages).
               title_mapping_of blocks_of ratio pages (fst e) = Some (name m)) \<and>
           set urls =
             {u. \<exists>p \<in> set pages. fst p = u \<and>
                   (\<exists>s \<in> set (page_candidates blocks_of (snd p)).
                      title_mapping_of blocks_of ratio pages (title s) = Some (name m))}"
proof -
  let ?ms = "module_sections_of blocks_of pages"
  let ?tm = "title_mapping_of blocks_of ratio pages"
  let ?ss = "snd (foldl (add_page blocks_of) ([], []) pages)"
  from infer_modules_eq [of blocks_of ratio pages] obtain res where
    ok: "reorganized ?tm ?ss ?ms ([], []) res"
    and eq: "infer_modules blocks_of ratio pages =
           Inr (sort_key (\<lambda>m. - confidence m)
                  (map (make_module (snd res)) (filter (\<lambda>e. snd e \<noteq> []) (fst res))))"
    by blast
  from eq assms(1) have "ms = sort_key (\<lambda>m. - confidence m)
                  (map (make_module (snd res)) (filter (\<lambda>e. snd e \<noteq> []) (fst res)))"
    by simp
  then have "set ms = set (map (make_module (snd res)) (filter (\<lambda>e. snd e \<noteq> []) (fst res)))"
    by (simp only: set_sort)
  with assms(2) have "m \<in> set (map (make_module (snd res)) (filter (\<lambda>e. snd e \<noteq> []) (fst res)))"
    by simp
  then obtain e where e: "e \<in> set (fst res)" "snd e \<noteq> []" and m: "m = make_module (snd res) e"
    by auto
  have nm: "name m = fst e" by (simp add: m make_module_def)
  have "distinct (map fst (fst res))"
    using ok by (simp add: reorganized_def)
  moreover have "(fst e, snd e) \<in> set (fst res)" using e by simp
  ultimately have "dd_get [] (fst e) (fst res) = snd e"
    by (rule dd_get_entry)
  moreover have "dd_get [] (fst e) (fst res) = contributing_sections blocks_of ratio pages (fst e)"
    using ok by (simp add: reorganized_def contributing_sections_def dd_get_def)
  ultimately have secs: "snd e = contributing_sections blocks_of ratio pages (fst e)"
    by simp
  have "fst e \<in> fst ` set (fst res)" using e by simp
  then have key: "\<exists>e' \<in> set ?ms. ?tm (fst e') = Some (fst e)"
    using ok by (simp add: reorganized_def)
  have "make_module (snd res) e =
      make_module [(fst e, dd_get [] (fst e) (snd res))] (fst e, snd e)"
    by (simp add: make_module_def dd_get_def)
  then have "m = make_module [(fst e, dd_get [] (fst e) (snd res))]
                 (fst e, contributing_sections blocks_of ratio pages (fst e))"
    unfolding m secs [symmetric] .
  moreover have "contributing_sections blocks_of ratio pages (fst e) \<noteq> []"
    using e(2) unfolding secs .
  ultimately have "m = make_module [(fst e, dd_get [] (fst e) (snd res))]
                 (fst e, contributing_sections blocks_of ratio pages (fst e)) \<and>
           contributing_sections blocks_of ratio pages (fst e) \<noteq> [] \<and>
           (\<exists>e' \<in> set ?ms. ?tm (fst e') = Some (fst e)) \<and>
           set (dd_get [] (fst e) (snd res)) =
             {u. \<exists>p \<in> set pages. fst p = u \<and>
                   (\<exists>s \<in> set (page_candidates blocks_of (snd p)).
                      ?tm (title s) = Some (fst e))}"
    using key merged_sources_set [OF ok, of "fst e"] by (intro conjI)
  then show ?thesis
    unfolding nm [symmetric] by (intro exI [where x = "dd_get [] (name m) (snd res)"])
qed

lemma example_run: "infer_modules example_blocks same_ratio example_pages = Inr [example_module]"
  by code_simp

lemma page_candidates_not_html: "page_candidates example_blocks ''not html'' = []"
  by (simp add: page_candidates_def extract_sections_def example_blocks_def
        build_sections_def build_loop_def)

lemma normalize_example:
  "normalize_title ''Getting Started'' = ''getting started'' \<and>
   normalize_title ''getting  started'' = ''getting started''"
  by code_simp

subsection \<open>Title merging\<close>

text \<open>
  C6. For a list of two titles whose normalized forms have a similarity of at least 0.8,
  merge_similar_titles maps both titles to the shorter of the two, which is the first one
  when their lengths are equal; a title that is listed twice maps to itself.
\<close>

theorem merge_similar_titles_pair:
  "(ratio (normalize_title t1) (normalize_title t2) \<ge> 0.8 \<longrightarrow>
      merge_similar_titles ratio [t1, t2] 0.8 t1 = Some (if length t1 \<le> length t2 then t1 else t2) \<and>
      merge_similar_titles ratio [t1, t2] 0.8 t2 = Some (if length t1 \<le> length t2 then t1 else t2) \<and>
      length (if length t1 \<le> length t2 then t1 else t2) = min (length t1) (length t2)) \<and>
   merge_similar_titles ratio [t, t] 0.8 t = Some t"
  by (simp add: merge_similar_titles_def Let_def)

theorem merge_similar_titles_pair_witness:
  "same_ratio (normalize_title ''Getting Started'') (normalize_title ''getting  started'') \<ge> 0.8 \<and>
   merge_similar_titles same_ratio [''Getting Started'', ''getting  started''] 0.8
     ''Getting Started'' = Some ''Getting Started'' \<and>
   merge_similar_titles same_ratio [''Getting Started'', ''getting  started''] 0.8
     ''getting  started'' = Some ''Getting Started''"
proof -
  have r: "same_ratio (normalize_title ''Getting Started'') (normalize_title ''getting  started'') \<ge> 0.8"
    by (simp add: normalize_example same_ratio_def)
  show ?thesis
    using r merge_similar_titles_pair [of same_ratio "''Getting Started''" "''getting  started''"]
    by simp
qed

text \<open>
  The titles of the sections that build_sections returns: each is the text of a heading
  block of its input, or the synthetic "Overview" of text that precedes every heading.
\<close>

lemma heading_texts_append:
  "heading_texts (blocks @ [b]) =
     heading_texts blocks @ (if level_map (fst b) \<noteq> None then [snd b] else [])"
  by (simp add: heading_texts_def)

lemma leading_text_append:
  "leading_text blocks \<Longrightarrow> leading_text (blocks @ [b])"
  by (cases blocks) (simp_all add: leading_text_def)

lemma title_source_append:
  "title_source blocks t \<Longrightarrow> title_source (blocks @ [b]) t"
  unfolding title_source_def heading_texts_append
  using leading_text_append [of blocks b] by auto

lemma title_source_heading:
  "level_map (fst b) = Some lvl \<Longrightarrow> title_source (blocks @ [b]) (snd b)"
  by (simp add: title_source_def heading_texts_append)

lemma leading_text_first:
  assumes "heading_texts blocks = []" "level_map (fst b) = None"
  shows "leading_text (blocks @ [b])"
proof (cases blocks)
  case Nil
  then show ?thesis using assms(2) by (simp add: leading_text_def)
next
  case (Cons a rest)
  from assms(1) have "level_map (fst a) = None"
    unfolding heading_texts_def Cons by (simp split: if_splits)
  then show ?thesis by (simp add: leading_text_def Cons)
qed

lemma heap_titles_update:
  assumes "\<forall>n \<in> set h. P (n_title n)" "n_title x = n_title (h ! i)"
  shows "\<forall>n \<in> set (h[i := x]). P (n_title n)"
proof (cases "i < length h")
  case False
  then have "length h \<le> i" by linarith
  then have "h[i := x] = h" by (rule list_update_beyond)
  then show ?thesis using assms(1) by simp
next
  case True
  then have hi: "h ! i \<in> set h" by simp
  show ?thesis
  proof
    fix n assume "n \<in> set (h[i := x])"
    then have "n = x \<or> n \<in> set h"
      using set_update_subset_insert [of h i x] by auto
    then show "P (n_title n)"
      using assms hi by metis
  qed
qed

lemma build_step_titles:
  assumes "titles_ok blocks s"
  shows "titles_ok (blocks @ [b]) (build_step s b)"
proof -
  from assms have old: "\<forall>n \<in> set (heap s). title_source (blocks @ [b]) (n_title n)"
    unfolding titles_ok_def using title_source_append by blast
  from assms have st: "stack s = [] \<longrightarrow> heading_texts blocks = []"
    by (simp add: titles_ok_def)
  show ?thesis
  proof (cases "level_map (fst b)")
    case None
    show ?thesis
    proof (cases "stack s = []")
      case True
      with st have no: "heading_texts blocks = []" by simp
      have "title_source (blocks @ [b]) ''Overview''"
        unfolding title_source_def using leading_text_first [OF no None] by simp
      then show ?thesis
        unfolding build_step_text_closed [OF None True] titles_ok_def
        using old True no None by (simp add: heading_texts_append)
    next
      case False
      have "\<forall>n \<in> set ((heap s)[last (stack s) := (heap s ! last (stack s))
                   \<lparr>n_text := (if n_text (heap s ! last (stack s)) \<noteq> []
                                then n_text (heap s ! last (stack s)) @ '' '' @ snd b
                                else snd b)\<rparr>]). title_source (blocks @ [b]) (n_title n)"
        using old by (rule heap_titles_update) simp
      then show ?thesis
        unfolding build_step_text_open [OF None False] titles_ok_def
        using False by simp
    qed
  next
    case (Some lvl)
    define stk where "stk = pop_stack (heap s) lvl (stack s)"
    have new: "title_source (blocks @ [b]) (snd b)"
      using Some by (rule title_source_heading)
    show ?thesis
    proof (cases "stk = []")
      case True
      show ?thesis
        unfolding build_step_heading_top [OF Some True [unfolded stk_def]] titles_ok_def
        using old new by simp
    next
      case False
      have "\<forall>n \<in> set ((heap s)[last stk := (heap s ! last stk)
              \<lparr>n_children := n_children (heap s ! last stk) @ [length (heap s)]\<rparr>]).
              title_source (blocks @ [b]) (n_title n)"
        using old by (rule heap_titles_update) simp
      then show ?thesis
        unfolding build_step_heading_nested [OF Some stk_def [symmetric] False] titles_ok_def
        using new by simp
    qed
  qed
qed

lemma foldl_build_step_titles:
  "titles_ok blocks0 s \<Longrightarrow> titles_ok (blocks0 @ blocks) (foldl build_step s blocks)"
proof (induction blocks arbitrary: blocks0 s)
  case Nil
  then show ?case by simp
next
  case (Cons b blocks)
  from Cons.IH [OF build_step_titles [OF Cons.prems, of b]] show ?case by simp
qed

lemma title_to_section: "title (to_section h a) = n_title (h ! a)"
  by (subst to_section.simps) simp

lemma build_sections_titles:
  assumes "s \<in> set (build_sections blocks)"
  shows "title_source blocks (title s)"
proof -
  from assms obtain a where a: "a \<in> set (root (build_loop blocks))"
    and s: "s = to_section (heap (build_loop blocks)) a"
    by (auto simp: build_sections_def Let_def)
  from build_loop_wf [of blocks] a have "a < length (heap (build_loop blocks))"
    by (simp add: wf_state_def)
  then have mem: "heap (build_loop blocks) ! a \<in> set (heap (build_loop blocks))"
    by simp
  have "titles_ok ([] @ blocks) (build_loop blocks)"
    unfolding build_loop_def
    by (rule foldl_build_step_titles) (simp add: titles_ok_def heading_texts_def)
  then have "titles_ok blocks (build_loop blocks)" by simp
  with mem show ?thesis
    unfolding titles_ok_def s title_to_section by blast
qed

text \<open>
  C10 (as the code has it). The mapping that merge_similar_titles returns is defined exactly
  on the titles of its input, and every value of it is one of these titles. Hence the name
  of every module that infer_modules returns is the title of a section that
  extract_sections built for one of the input pages: it is the text of a heading block of
  that page, or it is the synthetic title "Overview", which build_sections gives to text
  that no heading precedes and which need not occur on any page.
\<close>

theorem merge_similar_titles_values:
  "dom (merge_similar_titles ratio titles threshold) = set titles \<and>
   ran (merge_similar_titles ratio titles threshold) \<subseteq> set titles \<and>
   (infer_modules blocks_of ratio pages = Inr ms \<longrightarrow>
      (\<forall>m \<in> set ms. \<exists>p \<in> set pages. \<exists>blocks secs.
          blocks_of (snd p) = Inr blocks \<and>
          extract_sections blocks_of (snd p) = Inr secs \<and> name m \<in> title ` set secs \<and>
          (name m \<in> set (heading_texts blocks) \<or>
           name m = ''Overview'' \<and> blocks \<noteq> [] \<and> level_map (fst (hd blocks)) = None)))"
proof (intro conjI impI ballI)
  have c: "closed_on (set titles) (merge_similar_titles ratio titles threshold)"
    by (rule merge_similar_titles_closed)
  then show "dom (merge_similar_titles ratio titles threshold) = set titles"
    by (simp add: closed_on_def)
  from c show "ran (merge_similar_titles ratio titles threshold) \<subseteq> set titles"
    unfolding closed_on_def ran_def by blast
next
  fix m assume run: "infer_modules blocks_of ratio pages = Inr ms" and m: "m \<in> set ms"
  from infer_modules_member [OF run m] obtain e where
    e: "e \<in> set (module_sections_of blocks_of pages)"
    and tm: "title_mapping_of blocks_of ratio pages (fst e) = Some (name m)"
    by blast
  from title_mapping_closed [of blocks_of pages ratio] tm
  have "name m \<in> fst ` set (module_sections_of blocks_of pages)"
    unfolding closed_on_def by blast
  then obtain e' where e': "e' \<in> set (module_sections_of blocks_of pages)" "fst e' = name m"
    by auto
  from module_sections_entry [OF e'(1)] obtain s where "s \<in> set (snd e')"
    by (cases "snd e'") auto
  with module_sections_entry(2) [OF e'(1)] e'(2) obtain p where
    p: "p \<in> set pages" "s \<in> set (page_candidates blocks_of (snd p))" and t: "title s = name m"
    by auto
  from p(2) obtain blocks where b: "blocks_of (snd p) = Inr blocks"
    and s: "s \<in> set (build_sections blocks)"
    by (cases "blocks_of (snd p)") (auto simp: page_candidates_def extract_sections_def)
  from b have x: "extract_sections blocks_of (snd p) = Inr (build_sections blocks)"
    by (simp add: extract_sections_def)
  from s t have i: "name m \<in> title ` set (build_sections blocks)"
    by force
  from build_sections_titles [OF s] t
  have "name m \<in> set (heading_texts blocks) \<or>
        name m = ''Overview'' \<and> blocks \<noteq> [] \<and> level_map (fst (hd blocks)) = None"
    by (simp add: title_source_def leading_text_def)
  with b x i have "\<exists>blocks secs.
          blocks_of (snd p) = Inr blocks \<and>
          extract_sections blocks_of (snd p) = Inr secs \<and> name m \<in> title ` set secs \<and>
          (name m \<in> set (heading_texts blocks) \<or>
           name m = ''Overview'' \<and> blocks \<noteq> [] \<and> level_map (fst (hd blocks)) = None)"
    by blast
  then show "\<exists>p \<in> set pages. \<exists>blocks secs.
          blocks_of (snd p) = Inr blocks \<and>
          extract_sections blocks_of (snd p) = Inr secs \<and> name m \<in> title ` set secs \<and>
          (name m \<in> set (heading_texts blocks) \<or>
           name m = ''Overview'' \<and> blocks \<noteq> [] \<and> level_map (fst (hd blocks)) = None)"
    using p(1) by (intro bexI [where x = p])
qed

theorem merge_similar_titles_values_witness:
  "dom (merge_similar_titles same_ratio [''Getting Started'', ''getting  started''] 0.8) =
     {''Getting Started'', ''getting  started''} \<and>
   infer_modules example_blocks same_ratio example_pages = Inr [example_module] \<and>
   (\<exists>p \<in> set example_pages. \<exists>blocks secs.
      example_blocks (snd p) = Inr blocks \<and>
      extract_sections example_blocks (snd p) = Inr secs \<and>
      name example_module \<in> title ` set secs \<and>
      name example_module \<in> set (heading_texts blocks))"
proof -
  note T = merge_similar_titles_values [of same_ratio "[''Getting Started'', ''getting  started'']"
      "0.8" example_blocks example_pages "[example_module]"]
  from T have "dom (merge_similar_titles same_ratio [''Getting Started'', ''getting  started''] 0.8) =
     {''Getting Started'', ''getting  started''}"
    by simp
  moreover from T example_run have "\<exists>p \<in> set example_pages. \<exists>blocks secs.
      example_blocks (snd p) = Inr blocks \<and>
      extract_sections example_blocks (snd p) = Inr secs \<and>
      name example_module \<in> title ` set secs \<and>
      (name example_module \<in> set (heading_texts blocks) \<or>
       name example_module = ''Overview'' \<and> blocks \<noteq> [] \<and>
       level_map (fst (hd blocks)) = None)"
    by simp
  moreover have "name example_module \<noteq> ''Overview''"
    by (simp add: example_module_def)
  ultimately show ?thesis
    using example_run by simp
qed

text \<open>
  A page of text without a heading gives a module named "Overview", a title that is the
  text of no block of the page.
\<close>

theorem infer_modules_overview_name:
  "map (\<lambda>p. text_only_blocks (snd p)) text_only_pages =
     [Inr [(''p'', ''Some text here''), (''p'', ''More text'')]] \<and>
   infer_modules text_only_blocks same_ratio text_only_pages =
     Inr [\<lparr>name = ''Overview'', description = ''Some text here'', submodules = [],
           source_urls = [''u''], confidence = 0.53\<rparr>] \<and>
   ''Overview'' \<notin> set (map snd [(''p'', ''Some text here''), (''p'', ''More text'')])"
  by code_simp

subsection \<open>Module inference\<close>

text \<open>
  C1. infer_modules returns the empty list for no pages, and for pages none of which has a
  module candidate; it raises for no input at all.
\<close>

theorem infer_modules_total:
  "infer_modules blocks_of ratio [] = Inr [] \<and>
   ((\<forall>p \<in> set pages. page_candidates blocks_of (snd p) = []) \<longrightarrow>
      infer_modules blocks_of ratio pages = Inr []) \<and>
   (\<exists>ms. infer_modules blocks_of ratio pages = Inr ms)"
proof (intro conjI impI)
  show "infer_modules blocks_of ratio [] = Inr []"
    by (simp add: infer_modules_def)
next
  assume none: "\<forall>p \<in> set pages. page_candidates blocks_of (snd p) = []"
  have "module_sections_of blocks_of pages = []"
  proof (rule ccontr)
    assume "module_sections_of blocks_of pages \<noteq> []"
    then obtain e where e: "e \<in> set (module_sections_of blocks_of pages)"
      by (cases "module_sections_of blocks_of pages") auto
    from module_sections_entry [OF e] none show False by auto
  qed
  then show "infer_modules blocks_of ratio pages = Inr []"
    by (simp add: infer_modules_def Let_def module_sections_of_def)
next
  from infer_modules_eq [of blocks_of ratio pages]
  show "\<exists>ms. infer_modules blocks_of ratio pages = Inr ms" by blast
qed

theorem infer_modules_total_witness:
  "infer_modules example_blocks same_ratio [] = Inr [] \<and>
   page_candidates example_blocks ''not html'' = [] \<and>
   infer_modules example_blocks same_ratio [(''u'', ''not html'')] = Inr []"
proof -
  have "\<forall>p \<in> set [(''u'', ''not html'')]. page_candidates example_blocks (snd p) = []"
    by (simp add: page_candidates_not_html)
  then show ?thesis
    using infer_modules_total [of example_blocks same_ratio "[(''u'', ''not html'')]"]
      page_candidates_not_html
    by blast
qed

text \<open>
  C9. For every module that infer_modules returns: its submodules are made, in order, from
  those children of its contributing sections that have a level of at most 4 and a valid
  title and are the first with their title; every submodule carries the source URLs of
  the module; and these are the URLs of all pages with a section that contributes to the
  module, a contributing section being a module candidate whose title is mapped to the
  module's name.
\<close>

theorem infer_modules_submodules:
  assumes "infer_modules blocks_of ratio pages = Inr ms" and "m \<in> set ms"
  shows "submodules m =
           map (\<lambda>c. \<lparr>sm_name = title c,
                      sm_description = submodule_description c,
                      sm_source_urls = source_urls m,
                      sm_confidence = calculate_confidence c False\<rparr>)
             (first_by_title (filter submodule_candidate
                (concat (map children (contributing_sections blocks_of ratio pages (name m)))))) \<and>
         (\<forall>sm \<in> set (submodules m). set (sm_source_urls sm) = set (source_urls m)) \<and>
         set (source_urls m) =
           {u. \<exists>p \<in> set pages. fst p = u \<and>
                 (\<exists>s \<in> set (page_candidates blocks_of (snd p)).
                    title_mapping_of blocks_of ratio pages (title s) = Some (name m))} \<and>
         set (contributing_sections blocks_of ratio pages (name m)) =
           {s. \<exists>p \<in> set pages. s \<in> set (page_candidates blocks_of (snd p)) \<and>
                 title_mapping_of blocks_of ratio pages (title s) = Some (name m)}"
proof -
  let ?secs = "contributing_sections blocks_of ratio pages (name m)"
  from infer_modules_member [OF assms] obtain urls where
    m: "m = make_module [(name m, urls)] (name m, ?secs)"
    and urls: "set urls =
             {u. \<exists>p \<in> set pages. fst p = u \<and>
                   (\<exists>s \<in> set (page_candidates blocks_of (snd p)).
                      title_mapping_of blocks_of ratio pages (title s) = Some (name m))}"
    by blast
  have get: "dd_get [] (name m) [(name m, urls)] = urls"
    by (simp add: dd_get_def)
  have src: "source_urls m = dedupe_preserve_order urls"
    by (subst m) (simp add: make_module_def get)
  have "submodules m = map snd (collect_submodules urls ?secs)"
    by (subst m) (simp add: make_module_def get)
  also have "\<dots> = map (make_submodule urls)
      (first_by_title (filter submodule_candidate (concat (map children ?secs))))"
    by (simp add: collect_submodules_eq comp_def)
  also have "make_submodule urls =
      (\<lambda>c. \<lparr>sm_name = title c, sm_description = submodule_description c,
             sm_source_urls = source_urls m, sm_confidence = calculate_confidence c False\<rparr>)"
    by (simp add: make_submodule_def src fun_eq_iff)
  finally have subs: "submodules m =
           map (\<lambda>c. \<lparr>sm_name = title c,
                      sm_description = submodule_description c,
                      sm_source_urls = source_urls m,
                      sm_confidence = calculate_confidence c False\<rparr>)
             (first_by_title (filter submodule_candidate (concat (map children ?secs))))" .
  have each: "\<forall>sm \<in> set (submodules m). set (sm_source_urls sm) = set (source_urls m)"
    by (subst subs) simp
  have "set (source_urls m) = set urls"
    by (simp add: src set_dedupe_preserve_order)
  with subs each urls contributing_sections_set [of blocks_of ratio pages "name m"]
  show ?thesis by (intro conjI) simp_all
qed

theorem infer_modules_submodules_witness:
  "infer_modules example_blocks same_ratio example_pages = Inr [example_module] \<and>
   submodules example_module =
     map (\<lambda>c. \<lparr>sm_name = title c,
                sm_description = submodule_description c,
                sm_source_urls = source_urls example_module,
                sm_confidence = calculate_confidence c False\<rparr>)
       (first_by_title (filter submodule_candidate
          (concat (map children
             (contributing_sections example_blocks same_ratio example_pages
                (name example_module)))))) \<and>
   set (source_urls example_module) =
     {u. \<exists>p \<in> set example_pages. fst p = u \<and>
           (\<exists>s \<in> set (page_candidates example_blocks (snd p)).
              title_mapping_of example_blocks same_ratio example_pages (title s) =
                Some (name example_module))}"
proof -
  have mem: "example_module \<in> set [example_module]" by simp
  note T = infer_modules_submodules [OF example_run mem]
  show ?thesis
    by (intro conjI example_run T [THEN conjunct1] T [THEN conjunct2, THEN conjunct2, THEN conjunct1])
qed

subsection \<open>Crawl bounds\<close>

lemma crawl_trace_loop_cases:
  obtains
    (stop) "crawl_trace_loop c queue visited trace = Inr trace"
  | (raise) e where "crawl_trace_loop c queue visited trace = Inl e" "raised c e"
  | (skip) u depth rest visited' where
      "queue = (u, depth) # rest"
      "crawl_trace_loop c queue visited trace = crawl_trace_loop c rest visited' trace"
  | (page) u depth rest pg links where
      "queue = (u, depth) # rest" "int (length trace) < max_pages c" "depth \<le> max_depth c"
      "fetch c u = Inr (Some pg)" "extract_links c u (p_html pg) = Inr links"
      "crawl_trace_loop c queue visited trace =
         crawl_trace_loop c
           (rest @ map (\<lambda>link. (link, depth + 1)) (filter (\<lambda>link. link \<notin> insert u visited) links))
           (insert u visited) (trace @ [(u, depth, pg)])"
proof (cases queue)
  case Nil
  then have "crawl_trace_loop c queue visited trace = Inr trace"
    by (subst crawl_trace_loop.simps) simp
  then show ?thesis by (rule stop)
next
  case (Cons e rest)
  obtain u depth where e: "e = (u, depth)" by (cases e)
  have q: "queue = (u, depth) # rest" using Cons e by simp
  note unfold = crawl_trace_loop.simps [of c queue visited trace]
  show ?thesis
  proof (cases "int (length trace) < max_pages c")
    case False
    then have "crawl_trace_loop c queue visited trace = Inr trace"
      unfolding unfold by (simp add: q)
    then show ?thesis by (rule stop)
  next
    case lt: True
    show ?thesis
    proof (cases "u \<in> visited \<or> depth > max_depth c")
      case True
      then have "crawl_trace_loop c queue visited trace = crawl_trace_loop c rest visited trace"
        unfolding unfold using lt by (simp add: q)
      with q show ?thesis by (rule skip)
    next
      case nv: False
      show ?thesis
      proof (cases "urlparse (host_ok c) u []")
        case (Inl err)
        then have "crawl_trace_loop c queue visited trace = Inl err"
          unfolding unfold using lt nv by (simp add: q)
        moreover have "raised c err" using Inl by (auto simp: raised_def)
        ultimately show ?thesis by (rule raise)
      next
        case (Inr parsed)
        show ?thesis
        proof (cases "scheme parsed \<notin> {''http'', ''https''}")
          case True
          then have "crawl_trace_loop c queue visited trace =
              crawl_trace_loop c rest (insert u visited) trace"
            unfolding unfold using lt nv Inr by (simp add: q)
          with q show ?thesis by (rule skip)
        next
          case sch: False
          show ?thesis
          proof (cases "fetch c u")
            case (Inl err)
            then have "crawl_trace_loop c queue visited trace = Inl err"
              unfolding unfold using lt nv Inr sch by (simp add: q)
            moreover have "raised c err" using Inl by (auto simp: raised_def)
            ultimately show ?thesis by (rule raise)
          next
            case f: (Inr res)
            show ?thesis
            proof (cases res)
              case None
              then have "crawl_trace_loop c queue visited trace =
                  crawl_trace_loop c rest (insert u visited) trace"
                unfolding unfold using lt nv Inr sch f by (simp add: q)
              with q show ?thesis by (rule skip)
            next
              case (Some pg)
              show ?thesis
              proof (cases "extract_links c u (p_html pg)")
                case (Inl err)
                then have "crawl_trace_loop c queue visited trace = Inl err"
                  unfolding unfold using lt nv Inr sch f Some by (simp add: q)
                moreover have "raised c err" using Inl by (auto simp: raised_def)
                ultimately show ?thesis by (rule raise)
              next
                case l: (Inr links)
                have "crawl_trace_loop c queue visited trace =
                   crawl_trace_loop c
                     (rest @ map (\<lambda>link. (link, depth + 1))
                               (filter (\<lambda>link. link \<notin> insert u visited) links))
                     (insert u visited) (trace @ [(u, depth, pg)])"
                  unfolding unfold using lt nv Inr sch f Some l by (simp add: q)
                moreover have "depth \<le> max_depth c" using nv by simp
                moreover have "fetch c u = Inr (Some pg)" using f Some by simp
                ultimately show ?thesis using q lt l by (intro page)
              qed
            qed
          qed
        qed
      qed
    qed
  qed
qed

lemma crawl_induct [consumes 0, case_names step]:
  assumes "\<And>queue visited trace.
     (\<And>queue' visited' trace'.
        ((queue', visited', trace'), (queue, visited, trace)) \<in> crawl_measure c \<Longrightarrow>
        P queue' visited' trace') \<Longrightarrow> P queue visited trace"
  shows "P queue visited trace"
proof -
  have "wf (crawl_measure c)"
    unfolding crawl_measure_def by simp
  then have "case_prod (\<lambda>q. case_prod (P q)) x" for x
  proof (induction x rule: wf_induct_rule)
    case (less x)
    obtain q v t where x: "x = (q, v, t)" by (cases x)
    have "P q v t"
      by (rule assms) (use less [unfolded x] in force)
    then show ?case by (simp add: x)
  qed
  from this [of "(queue, visited, trace)"] show ?thesis by simp
qed

lemma crawl_measure_skip:
  "((rest, visited', trace), ((u, depth) # rest, visited, trace)) \<in> crawl_measure c"
  by (simp add: crawl_measure_def)

lemma crawl_measure_page:
  "int (length trace) < max_pages c \<Longrightarrow>
   ((queue', visited', trace @ [e]), (queue, visited, trace)) \<in> crawl_measure c"
  by (simp add: crawl_measure_def)

lemma crawl_trace_loop_length:
  "crawl_trace_loop c queue visited trace = Inr r \<Longrightarrow>
   int (length r) \<le> max (max_pages c) (int (length trace))"
proof (induction queue visited trace rule: crawl_induct [where c = c])
  case (step queue visited trace)
  show ?case
  proof (cases c queue visited trace rule: crawl_trace_loop_cases)
    case stop
    with step.prems show ?thesis by simp
  next
    case (raise e)
    with step.prems show ?thesis by simp
  next
    case (skip u depth rest visited')
    have "crawl_trace_loop c rest visited' trace = Inr r"
      using step.prems skip(2) by simp
    then show ?thesis
      using crawl_measure_skip [of rest visited' trace u depth visited c]
      unfolding skip(1) [symmetric] by (rule step.IH [rotated])
  next
    case (page u depth rest pg links)
    let ?q = "rest @ map (\<lambda>link. (link, depth + 1)) (filter (\<lambda>link. link \<notin> insert u visited) links)"
    have "crawl_trace_loop c ?q (insert u visited) (trace @ [(u, depth, pg)]) = Inr r"
      using step.prems page(6) by simp
    then have "int (length r) \<le> max (max_pages c) (int (length (trace @ [(u, depth, pg)])))"
      using crawl_measure_page [OF page(2)] by (rule step.IH [rotated])
    then show ?thesis using page(2) by simp
  qed
qed

lemma crawl_trace_loop_raised:
  "crawl_trace_loop c queue visited trace = Inl e \<Longrightarrow> raised c e"
proof (induction queue visited trace rule: crawl_induct [where c = c])
  case (step queue visited trace)
  show ?case
  proof (cases c queue visited trace rule: crawl_trace_loop_cases)
    case stop
    with step.prems show ?thesis by simp
  next
    case (raise e')
    with step.prems show ?thesis by simp
  next
    case (skip u depth rest visited')
    have "crawl_trace_loop c rest visited' trace = Inl e"
      using step.prems skip(2) by simp
    then show ?thesis
      using crawl_measure_skip [of rest visited' trace u depth visited c]
      unfolding skip(1) [symmetric] by (rule step.IH [rotated])
  next
    case (page u depth rest pg links)
    let ?q = "rest @ map (\<lambda>link. (link, depth + 1)) (filter (\<lambda>link. link \<notin> insert u visited) links)"
    have "crawl_trace_loop c ?q (insert u visited) (trace @ [(u, depth, pg)]) = Inl e"
      using step.prems page(6) by simp
    then show ?thesis
      using crawl_measure_page [OF page(2)] by (rule step.IH [rotated])
  qed
qed

lemma hops_nonneg: "hops c roots u d \<Longrightarrow> 0 \<le> d"
  by (induction rule: hops.induct) auto

lemma crawl_trace_loop_ok:
  "crawl_trace_loop c queue visited trace = Inr r \<Longrightarrow> queue_ok c roots queue \<Longrightarrow>
   trace_ok c roots trace \<Longrightarrow> trace_ok c roots r"
proof (induction queue visited trace rule: crawl_induct [where c = c])
  case (step queue visited trace)
  show ?case
  proof (cases c queue visited trace rule: crawl_trace_loop_cases)
    case stop
    with step.prems show ?thesis by simp
  next
    case (raise e')
    with step.prems show ?thesis by simp
  next
    case (skip u depth rest visited')
    have r: "crawl_trace_loop c rest visited' trace = Inr r"
      using step.prems(1) skip(2) by simp
    have q: "queue_ok c roots rest"
      using step.prems(2) by (simp add: queue_ok_def skip(1))
    have m: "((rest, visited', trace), (queue, visited, trace)) \<in> crawl_measure c"
      unfolding skip(1) by (rule crawl_measure_skip)
    show ?thesis
      by (rule step.IH [OF m r q step.prems(3)])
  next
    case (page u depth rest pg links)
    let ?new = "map (\<lambda>link. (link, depth + 1)) (filter (\<lambda>link. link \<notin> insert u visited) links)"
    have r: "crawl_trace_loop c (rest @ ?new) (insert u visited) (trace @ [(u, depth, pg)]) = Inr r"
      using step.prems(1) page(6) by simp
    have h: "hops c roots u depth" and rest: "queue_ok c roots rest"
      using step.prems(2) by (simp_all add: queue_ok_def page(1))
    have "queue_ok c roots ?new"
      unfolding queue_ok_def using hops.link [OF h page(4) page(5)] by auto
    with rest have q: "queue_ok c roots (rest @ ?new)"
      by (auto simp: queue_ok_def)
    have t: "trace_ok c roots (trace @ [(u, depth, pg)])"
      using step.prems(3) h page(3) page(4) by (auto simp: trace_ok_def)
    show ?thesis
      by (rule step.IH [OF crawl_measure_page [OF page(2)] r q t])
  qed
qed

lemma example_crawl_trace:
  "crawl_trace example_crawler [''http://a/''] =
     Inr [(''http://a/'', 0, \<lparr>p_url = ''http://a/'', p_html = ''A'', p_status = 200\<rparr>),
          (''http://a/b'', 1, \<lparr>p_url = ''http://a/b'', p_html = ''B'', p_status = 200\<rparr>)]"
  by code_simp

text \<open>
  C2 (as the code has it). For every seed list and every crawler: when crawl returns, it
  returns at most max_pages pages, and none when max_pages is negative; it raises only
  what URL parsing, fetch or extract_links raises; every page it returns was fetched for
  a URL that was dequeued at a depth between 0 and max_depth and that is that many links
  away from a seed; a URL that is only more than max_depth links away from the seeds is
  never fetched.
\<close>

theorem crawl_bounded:
  "(crawl c roots = Inr pages \<longrightarrow> int (length pages) \<le> max 0 (max_pages c)) \<and>
   (crawl c roots = Inl err \<longrightarrow> raised c err) \<and>
   (crawl_trace c roots = Inr tr \<longrightarrow>
      crawl c roots = Inr (map (\<lambda>e. snd (snd e)) tr) \<and>
      (\<forall>e \<in> set tr.
         0 \<le> fst (snd e) \<and> fst (snd e) \<le> max_depth c \<and>
         hops c roots (fst e) (fst (snd e)) \<and> fetch c (fst e) = Inr (Some (snd (snd e)))) \<and>
      (\<forall>u. (\<forall>d. hops c roots u d \<longrightarrow> max_depth c < d) \<longrightarrow> u \<notin> fst ` set tr))"
proof (intro conjI impI)
  assume "crawl c roots = Inr pages"
  then obtain t where t: "crawl_trace c roots = Inr t" and p: "pages = map (\<lambda>e. snd (snd e)) t"
    by (cases "crawl_trace c roots") (auto simp: crawl_def)
  from t have "int (length t) \<le> max (max_pages c) 0"
    using crawl_trace_loop_length [of c "map (\<lambda>r. (r, 0)) roots" "{}" "[]" t]
    by (simp add: crawl_trace_def)
  then show "int (length pages) \<le> max 0 (max_pages c)"
    by (simp add: p max.commute)
next
  assume "crawl c roots = Inl err"
  then have "crawl_trace c roots = Inl err"
    by (cases "crawl_trace c roots") (auto simp: crawl_def)
  then show "raised c err"
    unfolding crawl_trace_def by (rule crawl_trace_loop_raised)
next
  assume t: "crawl_trace c roots = Inr tr"
  then show "crawl c roots = Inr (map (\<lambda>e. snd (snd e)) tr)"
    by (simp add: crawl_def)
  have q0: "queue_ok c roots (map (\<lambda>r. (r, 0)) roots)"
    by (auto simp: queue_ok_def intro: hops.seed)
  have t0: "trace_ok c roots []"
    by (simp add: trace_ok_def)
  have ok: "trace_ok c roots tr"
    by (rule crawl_trace_loop_ok [OF t [unfolded crawl_trace_def] q0 t0])
  show each: "\<forall>e \<in> set tr.
      0 \<le> fst (snd e) \<and> fst (snd e) \<le> max_depth c \<and>
      hops c roots (fst e) (fst (snd e)) \<and> fetch c (fst e) = Inr (Some (snd (snd e)))"
    using ok hops_nonneg unfolding trace_ok_def by blast
  show "\<forall>u. (\<forall>d. hops c roots u d \<longrightarrow> max_depth c < d) \<longrightarrow> u \<notin> fst ` set tr"
  proof (intro allI impI notI)
    fix u assume far: "\<forall>d. hops c roots u d \<longrightarrow> max_depth c < d" and "u \<in> fst ` set tr"
    then obtain e where e: "e \<in> set tr" "fst e = u" by auto
    with each have "fst (snd e) \<le> max_depth c" "hops c roots u (fst (snd e))" by auto
    with far show False by force
  qed
qed

theorem crawl_bounded_witness:
  "crawl example_crawler [''http://a/''] =
     Inr [\<lparr>p_url = ''http://a/'', p_html = ''A'', p_status = 200\<rparr>,
          \<lparr>p_url = ''http://a/b'', p_html = ''B'', p_status = 200\<rparr>] \<and>
   int (length [\<lparr>p_url = ''http://a/'', p_html = ''A'', p_status = 200\<rparr>,
                \<lparr>p_url = ''http://a/b'', p_html = ''B'', p_status = 200\<rparr>]) \<le> max 0 2 \<and>
   hops example_crawler [''http://a/''] ''http://a/b'' 1"
proof -
  let ?pages = "[\<lparr>p_url = ''http://a/'', p_html = ''A'', p_status = 200\<rparr>,
                 \<lparr>p_url = ''http://a/b'', p_html = ''B'', p_status = 200\<rparr>]"
  note T = crawl_bounded [of example_crawler "[''http://a/'']" ?pages _
      "[(''http://a/'', 0, \<lparr>p_url = ''http://a/'', p_html = ''A'', p_status = 200\<rparr>),
        (''http://a/b'', 1, \<lparr>p_url = ''http://a/b'', p_html = ''B'', p_status = 200\<rparr>)]"]
  have mp: "max_pages example_crawler = 2"
    by (simp add: example_crawler_def)
  have 1: "crawl example_crawler [''http://a/''] = Inr ?pages"
    using T example_crawl_trace by simp
  have 2: "int (length ?pages) \<le> max 0 2"
    using T [THEN conjunct1] 1 unfolding mp by blast
  have 3: "hops example_crawler [''http://a/''] ''http://a/b'' 1"
    using T example_crawl_trace by simp
  from 1 2 3 show ?thesis by (intro conjI)
qed

text \<open>With a negative page budget the result is empty, which is more than the budget.\<close>

theorem crawl_negative_budget:
  "crawl (example_crawler\<lparr>max_pages := - 1\<rparr>) [''http://a/''] = Inr [] \<and>
   \<not> int (length ([] :: page list)) \<le> max_pages (example_crawler\<lparr>max_pages := - 1\<rparr>)"
proof -
  have "crawl (example_crawler\<lparr>max_pages := - 1\<rparr>) [''http://a/''] = Inr []"
    by (simp add: crawl_def crawl_trace_def crawl_trace_loop.simps)
  then show ?thesis by simp
qed

subsection \<open>URL normalization\<close>

lemma set_before: "set (before c s) \<subseteq> set s"
  unfolding before_def by (auto dest: set_takeWhileD)

lemma set_after: "set (after c s) \<subseteq> set s"
  unfolding after_def by (auto dest: in_set_dropD set_dropWhileD)

lemma before_free: "c \<notin> set (before c s)"
  unfolding before_def by (auto dest: set_takeWhileD)

lemma split_first_sets:
  assumes "split_first c u = (a, b)"
  shows "set a \<subseteq> set u" "set b \<subseteq> set u" "c \<notin> set a"
  using assms set_before [of c u] set_after [of c u] before_free [of c u]
  by (auto simp: split_first_def split: if_splits)

lemma splitnetloc_free:
  assumes "splitnetloc u = (nl, r)"
  shows "\<forall>c \<in> set nl. \<not> netloc_delim c"
  using assms by (auto simp: splitnetloc_def dest: set_takeWhileD)

lemma urlsplit_stages:
  assumes "urlsplit ok u0 s0 = Inr (s, nl, u, q, f)"
  obtains u1 u2 u3 where
    "split_scheme (clean_scheme s0) (clean_url u0) = (s, u1)"
    "(if take 2 u1 = ''//'' then splitnetloc u1 else ([], u1)) = (nl, u2)"
    "split_first CHR ''#'' u2 = (u3, f)"
    "split_first CHR ''?'' u3 = (u, q)"
    "CHR ''['' \<in> set nl \<longleftrightarrow> CHR '']'' \<in> set nl"
    "CHR ''['' \<in> set nl \<longrightarrow> ok (before CHR '']'' (after CHR ''['' nl))"
  using assms
  by (auto simp: urlsplit_def Let_def split: prod.splits if_splits)

lemma urlsplit_no_hash:
  assumes "urlsplit ok u0 s0 = Inr (s, nl, u, q, f)"
  shows "CHR ''#'' \<notin> set nl \<and> CHR ''#'' \<notin> set u \<and> CHR ''#'' \<notin> set q"
proof -
  from urlsplit_stages [OF assms] obtain u1 u2 u3 where
    n: "(if take 2 u1 = ''//'' then splitnetloc u1 else ([], u1)) = (nl, u2)"
    and f: "split_first CHR ''#'' u2 = (u3, f)"
    and q: "split_first CHR ''?'' u3 = (u, q)"
    by blast
  have "CHR ''#'' \<notin> set nl"
    using n splitnetloc_free [of u1 nl u2]
    by (auto simp: netloc_delim_def split: if_splits)
  moreover have "CHR ''#'' \<notin> set u3"
    using split_first_sets(3) [OF f] .
  moreover have "set u \<subseteq> set u3" "set q \<subseteq> set u3"
    using split_first_sets [OF q] by simp_all
  ultimately show ?thesis by blast
qed

lemma set_splitparams:
  "set (fst (splitparams u)) \<subseteq> set u \<and> set (snd (splitparams u)) \<subseteq> set u"
proof -
  have 1: "set (take k u @ before c (drop k u)) \<subseteq> set u" for k c
    using set_before [of c "drop k u"] by (auto dest: in_set_takeD in_set_dropD)
  have 2: "set (after c (drop k u)) \<subseteq> set u" for k c
    using set_after [of c "drop k u"] by (auto dest: in_set_dropD)
  have 3: "set (butlast u) \<subseteq> set u"
    by (auto dest: in_set_butlastD)
  show ?thesis
    using 1 2 3 set_before [of "CHR '';''" u] set_after [of "CHR '';''" u]
    by (simp add: splitparams_def Let_def)
qed

lemma urlparse_stages:
  assumes "urlparse ok u0 s0 = Inr p"
  obtains s nl u q f u' ps where
    "urlsplit ok u0 s0 = Inr (s, nl, u, q, f)"
    "(if s \<in> set uses_params \<and> CHR '';'' \<in> set u then splitparams u else (u, [])) = (u', ps)"
    "p = \<lparr>scheme = s, netloc = nl, path = u', params = ps, query = q, fragment = f\<rparr>"
  using assms
  by (auto simp: urlparse_def Let_def split: sum.splits prod.splits)

lemma urlparse_no_hash:
  assumes "urlparse ok u0 s0 = Inr p"
  shows "CHR ''#'' \<notin> set (netloc p) \<and> CHR ''#'' \<notin> set (path p) \<and>
         CHR ''#'' \<notin> set (params p) \<and> CHR ''#'' \<notin> set (query p)"
proof -
  from urlparse_stages [OF assms] obtain s nl u q f u' ps where
    sp: "urlsplit ok u0 s0 = Inr (s, nl, u, q, f)"
    and pp: "(if s \<in> set uses_params \<and> CHR '';'' \<in> set u then splitparams u else (u, [])) = (u', ps)"
    and p: "p = \<lparr>scheme = s, netloc = nl, path = u', params = ps, query = q, fragment = f\<rparr>"
    by blast
  from urlsplit_no_hash [OF sp] have h: "CHR ''#'' \<notin> set nl" "CHR ''#'' \<notin> set u" "CHR ''#'' \<notin> set q"
    by simp_all
  have "set u' \<subseteq> set u \<and> set ps \<subseteq> set u"
    using set_splitparams [of u] pp by (auto split: if_splits)
  with h show ?thesis by (auto simp: p)
qed

lemma urlunparse_http:
  assumes "scheme p = ''http'' \<or> scheme p = ''https''" "fragment p = []"
  shows "\<exists>x. urlunparse p = scheme p @ ''://'' @ netloc p @ x \<and>
             set x \<subseteq> {CHR ''/'', CHR '';'', CHR ''?''} \<union> set (path p) \<union> set (params p) \<union> set (query p)"
proof -
  define x0 where "x0 = (if params p \<noteq> [] then path p @ '';'' @ params p else path p)"
  define x1 where "x1 = (if x0 \<noteq> [] \<and> take 1 x0 \<noteq> ''/'' then ''/'' @ x0 else x0)"
  define x where "x = (if query p \<noteq> [] then x1 @ ''?'' @ query p else x1)"
  have s: "scheme p \<noteq> []" "scheme p \<in> set uses_netloc"
    using assms(1) by (auto simp: uses_netloc_def)
  have "urlunparse p = scheme p @ ''://'' @ netloc p @ x"
    using s assms(2)
    by (simp add: urlunparse_def urlunsplit_def Let_def x0_def x1_def x_def)
  moreover have "set x \<subseteq> {CHR ''/'', CHR '';'', CHR ''?''} \<union> set (path p) \<union> set (params p) \<union> set (query p)"
    by (auto simp: x_def x1_def x0_def split: if_splits)
  ultimately show ?thesis by blast
qed

lemma normalize_example_run:
  "normalize_url (\<lambda>h. True) ''https://a.com/docs/'' ''../guide;v=2?lang=en#top'' =
     Inr ''https://a.com/guide;v=2?lang=en''"
  by code_simp

text \<open>
  C8. For every base URL and link, what normalize_url returns is the empty string or a URL
  that starts with "http://" or "https://" and contains no character "#", hence no
  fragment; it is the empty string exactly when the scheme of the joined URL is neither
  http nor https, and the joined URL without its fragment otherwise. In particular
  normalize_url("https://a.com", "https://a.com/p#x") is "https://a.com/p".
\<close>

theorem normalize_url_http:
  "(normalize_url ok base_url link = Inr r \<longrightarrow>
      r = [] \<or>
      ((starts_with ''http://'' r \<or> starts_with ''https://'' r) \<and> CHR ''#'' \<notin> set r)) \<and>
   (urlparse ok base_url [] = Inr b \<and> urljoin ok base_url link = Inr joined \<and>
    urlparse ok joined [] = Inr parsed \<longrightarrow>
      normalize_url ok base_url link =
        Inr (if scheme parsed \<notin> {''http'', ''https''} then []
             else urlunparse (parsed\<lparr>fragment := []\<rparr>))) \<and>
   normalize_url ok ''https://a.com'' ''https://a.com/p#x'' = Inr ''https://a.com/p''"
proof (intro conjI impI)
  assume r: "normalize_url ok base_url link = Inr r"
  show "r = [] \<or>
      ((starts_with ''http://'' r \<or> starts_with ''https://'' r) \<and> CHR ''#'' \<notin> set r)"
  proof (cases "r = []")
    case True
    then show ?thesis by simp
  next
    case False
    from r False obtain joined parsed where
      p: "urlparse ok joined [] = Inr parsed"
      and sch: "scheme parsed = ''http'' \<or> scheme parsed = ''https''"
      and res: "r = urlunparse (parsed\<lparr>fragment := []\<rparr>)"
      by (auto simp: normalize_url_def split: sum.splits if_splits)
    let ?p = "parsed\<lparr>fragment := []\<rparr>"
    from urlunparse_http [of ?p] sch obtain x where
      x: "r = scheme parsed @ ''://'' @ netloc parsed @ x"
      and xs: "set x \<subseteq> {CHR ''/'', CHR '';'', CHR ''?''} \<union> set (path parsed) \<union>
                 set (params parsed) \<union> set (query parsed)"
      unfolding res by auto
    from urlparse_no_hash [OF p] xs have "CHR ''#'' \<notin> set (netloc parsed)" "CHR ''#'' \<notin> set x"
      by auto
    with sch have "CHR ''#'' \<notin> set r"
      unfolding x by auto
    moreover have "starts_with ''http://'' r \<or> starts_with ''https://'' r"
      using sch unfolding x by (auto simp: starts_with_def)
    ultimately show ?thesis by simp
  qed
next
  assume "urlparse ok base_url [] = Inr b \<and> urljoin ok base_url link = Inr joined \<and>
    urlparse ok joined [] = Inr parsed"
  then show "normalize_url ok base_url link =
        Inr (if scheme parsed \<notin> {''http'', ''https''} then []
             else urlunparse (parsed\<lparr>fragment := []\<rparr>))"
    by (simp add: normalize_url_def)
next
  show "normalize_url ok ''https://a.com'' ''https://a.com/p#x'' = Inr ''https://a.com/p''"
    by code_simp
qed

theorem normalize_url_http_witness:
  "normalize_url (\<lambda>h. True) ''https://a.com/docs/'' ''../guide;v=2?lang=en#top'' =
     Inr ''https://a.com/guide;v=2?lang=en'' \<and>
   starts_with ''https://'' ''https://a.com/guide;v=2?lang=en'' \<and>
   CHR ''#'' \<notin> set ''https://a.com/guide;v=2?lang=en''"
proof -
  note T = normalize_url_http [of "\<lambda>h. True" "''https://a.com/docs/''"
      "''../guide;v=2?lang=en#top''" "''https://a.com/guide;v=2?lang=en''"]
  from T normalize_example_run
  have "(starts_with ''http://'' ''https://a.com/guide;v=2?lang=en'' \<or>
         starts_with ''https://'' ''https://a.com/guide;v=2?lang=en'') \<and>
        CHR ''#'' \<notin> set ''https://a.com/guide;v=2?lang=en''"
    by simp
  moreover have "\<not> starts_with ''http://'' ''https://a.com/guide;v=2?lang=en''"
    by (simp add: starts_with_def)
  ultimately show ?thesis
    using normalize_example_run by blast
qed

end
